theory Spec2Isabelle
  imports Main "HOL-Library.Sublist"
begin

section \<open>Strings and the regular expressions of adapter.ts\<close>

text \<open>
  A JavaScript string is modelled as a \<^typ>\<open>string\<close>: the code units below 256. In that
  range the line terminators are LF and CR, and the white space of \<open>\s\<close> is TAB, LF, VT,
  FF, CR, SPACE and NBSP.
\<close>

abbreviation LF :: char where "LF \<equiv> CHR 0x0A"
abbreviation CR :: char where "CR \<equiv> CHR 0x0D"

definition is_lt :: "char \<Rightarrow> bool" where
  "is_lt ch = (ch = LF \<or> ch = CR)"

definition is_space :: "char \<Rightarrow> bool" where
  "is_space ch = (ch \<in> set [CHR 0x09, LF, CHR 0x0B, CHR 0x0C, CR, CHR 0x20, CHR 0xA0])"

definition is_digit :: "char \<Rightarrow> bool" where
  "is_digit ch = (ch \<in> set ''0123456789'')"

definition is_word :: "char \<Rightarrow> bool" where
  "is_word ch = (ch \<in> set ''abcdefghijklmnopqrstuvwxyzABCDEFGHIJKLMNOPQRSTUVWXYZ0123456789_'')"

text \<open>Canonicalisation of the \<open>i\<close> flag, on the letters the patterns of the adapter use.\<close>

definition canon :: "char \<Rightarrow> char" where
  "canon ch = (case map_of (zip ''abcdefghijklmnopqrstuvwxyz'' ''ABCDEFGHIJKLMNOPQRSTUVWXYZ'') ch of
                 Some u \<Rightarrow> u | None \<Rightarrow> ch)"

datatype cls = Digit | Space | NonSpace | Word | Dot | OneOf string

fun in_cls :: "cls \<Rightarrow> char \<Rightarrow> bool" where
  "in_cls Digit ch = is_digit ch"
| "in_cls Space ch = is_space ch"
| "in_cls NonSpace ch = (\<not> is_space ch)"
| "in_cls Word ch = is_word ch"
| "in_cls Dot ch = (\<not> is_lt ch)"
| "in_cls (OneOf cs) ch = (ch \<in> set cs)"

text \<open>
  The pattern language the adapter uses: literal characters, classes, \<open>^\<close>, sequence,
  alternation, the greedy star and capture groups. \<open>r+\<close> is \<open>Seq r (Star r)\<close>.
\<close>

datatype re =
    Chr char
  | Cls cls
  | Bol
  | Eps
  | Seq re re
  | Alt re re
  | Star re
  | Grp nat re

record flags =
  ignoreCase :: bool
  multiline :: bool

type_synonym caps = "string option list"

text \<open>
  A position in the subject is a zipper: the text before it, reversed, and the text from it
  on. A matcher state adds the captures made so far.
\<close>

type_synonym mstate = "string \<times> string \<times> caps"

text \<open>
  The backtracking matcher, as the list of the ways a pattern can match from a state, in
  the order in which the ECMAScript matcher tries them: the first element is the match
  \<open>exec\<close> reports. An iteration of a star that consumes nothing is rejected, as
  RepeatMatcher does; the fuel of \<open>star_ms\<close> is the length of the remaining text, which
  such iterations cannot exhaust.
\<close>

primrec star_ms :: "(mstate \<Rightarrow> mstate list) \<Rightarrow> nat \<Rightarrow> mstate \<Rightarrow> mstate list" where
  "star_ms f 0 st = [st]"
| "star_ms f (Suc n) st =
     concat (map (\<lambda>st'. if length (fst (snd st')) < length (fst (snd st))
                          then star_ms f n st' else [])
                 (f st)) @ [st]"

primrec ms :: "re \<Rightarrow> flags \<Rightarrow> mstate \<Rightarrow> mstate list" where
  "ms (Chr a) fl st =
     (case st of (b, [], c) \<Rightarrow> []
      | (b, x # xs, c) \<Rightarrow>
          if (if ignoreCase fl then canon x = canon a else x = a) then [(x # b, xs, c)] else [])"
| "ms (Cls k) fl st =
     (case st of (b, [], c) \<Rightarrow> []
      | (b, x # xs, c) \<Rightarrow> if in_cls k x then [(x # b, xs, c)] else [])"
| "ms Bol fl st =
     (case fst st of [] \<Rightarrow> [st]
      | x # b \<Rightarrow> if multiline fl \<and> is_lt x then [st] else [])"
| "ms Eps fl st = [st]"
| "ms (Seq r1 r2) fl st = concat (map (ms r2 fl) (ms r1 fl st))"
| "ms (Alt r1 r2) fl st = ms r1 fl st @ ms r2 fl st"
| "ms (Star r) fl st = star_ms (ms r fl) (length (fst (snd st))) st"
| "ms (Grp n r) fl st =
     map (\<lambda>(b', a', c'). (b', a', c'[n := Some (rev (take (length b' - length (fst st)) b'))]))
         (ms r fl st)"

definition Lit :: "string \<Rightarrow> re" where
  "Lit w = foldr (\<lambda>ch r. Seq (Chr ch) r) w Eps"

definition Plus :: "re \<Rightarrow> re" where
  "Plus r = Seq r (Star r)"

definition seqs :: "re list \<Rightarrow> re" where
  "seqs rs = foldr Seq rs Eps"

text \<open>A compiled RegExp: the pattern, its flags and the number of its capture groups.\<close>

record regexp =
  pattern :: re
  rflags :: flags
  ngroups :: nat

text \<open>What \<open>exec\<close> returns: \<open>match.index\<close>, the end of the match, and \<open>match[0..]\<close>.\<close>

record rmatch =
  index :: nat
  m_end :: nat
  groups :: "string option list"

text \<open>
  \<open>RegExp.prototype.exec\<close> from \<open>lastIndex\<close>: the first position, from left to right, at
  which the pattern matches, with the first way of matching there. \<open>scan\<close> walks the
  positions, its fuel is their number.
\<close>

fun scan :: "regexp \<Rightarrow> nat \<Rightarrow> string \<Rightarrow> string \<Rightarrow> rmatch option" where
  "scan rx 0 b a = None"
| "scan rx (Suc k) b a =
     (case ms (pattern rx) (rflags rx) (b, a, replicate (Suc (ngroups rx)) None) of
        (b', a', c') # _ \<Rightarrow>
          Some \<lparr>index = length b, m_end = length b',
                groups = c'[0 := Some (rev (take (length b' - length b) b'))]\<rparr>
      | [] \<Rightarrow> (case a of [] \<Rightarrow> None | x # xs \<Rightarrow> scan rx k (x # b) xs))"

definition regexp_exec :: "regexp \<Rightarrow> string \<Rightarrow> nat \<Rightarrow> rmatch option" where
  "regexp_exec rx s lastIndex =
     (if length s < lastIndex then None
      else scan rx (Suc (length s - lastIndex)) (rev (take lastIndex s)) (drop lastIndex s))"

text \<open>\<open>String.prototype.search\<close>: the index of the first match, or -1.\<close>

definition search :: "string \<Rightarrow> regexp \<Rightarrow> int" where
  "search s rx = (case regexp_exec rx s 0 of None \<Rightarrow> -1 | Some m \<Rightarrow> int (index m))"

text \<open>\<open>s.substr(0, n)\<close>: a negative length gives the empty string.\<close>

definition substr0 :: "string \<Rightarrow> int \<Rightarrow> string" where
  "substr0 s n = take (nat n) s"

text \<open>\<open>s.split(sep)\<close> for a one-character separator.\<close>

fun split_acc :: "char \<Rightarrow> string \<Rightarrow> string \<Rightarrow> string list" where
  "split_acc sep cur [] = [rev cur]"
| "split_acc sep cur (ch # s) =
     (if ch = sep then rev cur # split_acc sep [] s else split_acc sep (ch # cur) s)"

definition split :: "string \<Rightarrow> char \<Rightarrow> string list" where
  "split s sep = split_acc sep [] s"

text \<open>
  A Number, as far as the adapter makes one: an integer that is a double, an infinity, or
  NaN. \<open>bits n\<close> is the length of \<open>n\<close> in binary; \<open>to_double\<close> rounds a natural number to
  the nearest double, ties to the even significand of 53 bits, and gives nothing beyond
  the largest double.
\<close>

datatype js_number = Num int | PosInfinity | NegInfinity | NaN

fun bits :: "int \<Rightarrow> nat" where
  "bits n = (if n \<le> 0 then 0 else Suc (bits (n div 2)))"

declare bits.simps [simp del]

definition to_double :: "int \<Rightarrow> int option" where
  "to_double n =
     (let e = bits n - 53; q = n div 2 ^ e; r = n mod 2 ^ e;
          q' = (if 2 ^ e < 2 * r \<or> (2 * r = 2 ^ e \<and> odd q) then q + 1 else q)
      in if 1024 < bits (q' * 2 ^ e) then None else Some (q' * 2 ^ e))"

text \<open>The Number for an integer.\<close>

definition number :: "int \<Rightarrow> js_number" where
  "number i =
     (case to_double \<bar>i\<bar> of
        None \<Rightarrow> if i < 0 then NegInfinity else PosInfinity
      | Some v \<Rightarrow> Num (if i < 0 then - v else v))"

text \<open>\<open>x - 1\<close> on Numbers.\<close>

definition minus_one :: "js_number \<Rightarrow> js_number" where
  "minus_one x = (case x of Num i \<Rightarrow> number (i - 1) | _ \<Rightarrow> x)"

text \<open>
  \<open>parseInt(string)\<close> without a radix: white space, a sign and the prefix \<open>0x\<close> are
  skipped, then the longest run of digits of the radix is read; without a digit the result
  is NaN. The value is the Number nearest to the integer the digits denote, which is what
  V8 returns (ECMAScript leaves the digits after the twentieth to the implementation).
\<close>

definition digit_of :: "char \<Rightarrow> int option" where
  "digit_of ch =
     map_of (zip ''0123456789abcdef'' [0, 1, 2, 3, 4, 5, 6, 7, 8, 9, 10, 11, 12, 13, 14, 15] @
             zip ''ABCDEF'' [10, 11, 12, 13, 14, 15]) ch"

definition in_radix :: "int \<Rightarrow> char \<Rightarrow> bool" where
  "in_radix R ch = (case digit_of ch of Some v \<Rightarrow> v < R | None \<Rightarrow> False)"

definition digits_value :: "int \<Rightarrow> string \<Rightarrow> int" where
  "digits_value R z =
     foldl (\<lambda>acc ch. R * acc + (case digit_of ch of Some v \<Rightarrow> v | None \<Rightarrow> 0)) 0 z"

definition parseInt :: "string \<Rightarrow> js_number" where
  "parseInt inputString =
     (let s = dropWhile is_space inputString;
          sign = (if take 1 s = ''-'' then - 1 else 1 :: int);
          s = (if take 1 s = ''+'' \<or> take 1 s = ''-'' then drop 1 s else s);
          hex = (take 2 s = ''0x'' \<or> take 2 s = ''0X'');
          R = (if hex then 16 else 10);
          z = takeWhile (in_radix R) (if hex then drop 2 s else s)
      in if z = [] then NaN else number (sign * digits_value R z))"

text \<open>String concatenation converts \<open>undefined\<close> to the text "undefined".\<close>

definition to_string :: "string option \<Rightarrow> string" where
  "to_string v = (case v of Some s \<Rightarrow> s | None \<Rightarrow> ''undefined'')"

text \<open>\<open>match[i]\<close>: \<open>undefined\<close> for a group that took no part in the match.\<close>

definition grp :: "rmatch \<Rightarrow> nat \<Rightarrow> string option" where
  "grp m i = (if i < length (groups m) then groups m ! i else None)"

subsection \<open>The patterns of the adapter\<close>

definition no_flags :: flags where
  "no_flags = \<lparr>ignoreCase = False, multiline = False\<rparr>"

definition testFunctionPrefix :: string where
  "testFunctionPrefix = ''test_''"

definition testFileSuffix :: string where
  "testFileSuffix = ''_test''"

text \<open>\<open>(PASS|(FAIL: (.*)))\<close>, the last part of \<open>testResultString\<close>.\<close>

definition verdict :: re where
  "verdict = Grp 2 (Alt (Lit ''PASS'') (Grp 3 (Seq (Lit ''FAIL: '') (Grp 4 (Star (Cls Dot))))))"

text \<open>
  \<open>:([0-9]+):.*LABEL:(PASS|(FAIL: (.*)))\<close> for a label that is literal text: the pattern
  that \<open>checkTestResult\<close> compiles when the label of the test is a word (lemma
  \<open>new_RegExp_word\<close>).
\<close>

definition testResultRegex :: "string \<Rightarrow> regexp" where
  "testResultRegex lbl =
     \<lparr>pattern = seqs [Chr CHR '':'', Grp 1 (Plus (Cls Digit)), Chr CHR '':'', Star (Cls Dot),
                      Lit lbl, Chr CHR '':'', verdict],
      rflags = no_flags, ngroups = 4\<rparr>"

text \<open>
  \<open>^\s*void\s+(test_)(.*)(?:\\\s+)*.*\s*\(\s*(.*)\s*\)\<close> with the flags \<open>gm\<close>: what the
  template literal of \<open>testNameRegex\<close> denotes.
\<close>

definition testNameTail :: "re list" where
  "testNameTail =
     [Plus (Cls Space), Grp 1 (Lit testFunctionPrefix), Grp 2 (Star (Cls Dot)),
      Star (Seq (Chr CHR 0x5C) (Plus (Cls Space))), Star (Cls Dot), Star (Cls Space),
      Chr CHR ''('', Star (Cls Space), Grp 3 (Star (Cls Dot)), Star (Cls Space), Chr CHR '')'']"

definition testNameRegex :: regexp where
  "testNameRegex =
     \<lparr>pattern = Seq Bol (Seq (Star (Cls Space)) (Seq (Lit ''void'') (seqs testNameTail))),
      rflags = \<lparr>ignoreCase = False, multiline = True\<rparr>, ngroups = 3\<rparr>"

text \<open>\<open>^(test_)(.*)\<close>\<close>

definition testLabelRegex :: regexp where
  "testLabelRegex =
     \<lparr>pattern = seqs [Bol, Grp 1 (Lit testFunctionPrefix), Grp 2 (Star (Cls Dot))],
      rflags = no_flags, ngroups = 2\<rparr>"

text \<open>\<open>(\w:.*[\/\\])(.*)(_test)(\.c)\<close> with the flag \<open>i\<close>\<close>

definition fileLabelRegex :: regexp where
  "fileLabelRegex =
     \<lparr>pattern = seqs [Grp 1 (seqs [Cls Word, Chr CHR '':'', Star (Cls Dot),
                                     Cls (OneOf [CHR ''/'', CHR 0x5C])]),
                      Grp 2 (Star (Cls Dot)), Grp 3 (Lit testFileSuffix), Grp 4 (Lit ''.c'')],
      rflags = \<lparr>ignoreCase = True, multiline = False\<rparr>, ngroups = 4\<rparr>"

text \<open>
  In the template literals of \<open>sourceFileRegex\<close> and \<open>testSourceRegex\<close> the escape \<open>\.\<close>
  is a plain dot, so the patterns are \<open>.*.[(h)(c)]\<close> and \<open>.*_test.c\<close>.
\<close>

definition sourceFileRegex :: regexp where
  "sourceFileRegex =
     \<lparr>pattern = seqs [Star (Cls Dot), Cls Dot, Cls (OneOf ''(h)(c)'')],
      rflags = no_flags, ngroups = 0\<rparr>"

definition testSourceRegex :: regexp where
  "testSourceRegex =
     \<lparr>pattern = seqs [Star (Cls Dot), Lit testFileSuffix, Cls Dot, Lit ''c''],
      rflags = no_flags, ngroups = 0\<rparr>"

text \<open>\<open>/\S/g\<close>; \<open>search\<close> ignores the \<open>g\<close> flag.\<close>

definition nonSpaceRegex :: regexp where
  "nonSpaceRegex = \<lparr>pattern = Cls NonSpace, rflags = no_flags, ngroups = 0\<rparr>"

definition accessMessage :: string where
  "accessMessage =
     ''The process cannot access the file because it is being used by another process''"

text \<open>The string given to \<open>stderr.search\<close>: a pattern of letters and spaces.\<close>

definition accessRegex :: regexp where
  "accessRegex = \<lparr>pattern = Lit accessMessage, rflags = no_flags, ngroups = 0\<rparr>"

text \<open>\<open>fileRegex.test(item)\<close>, for a pattern without the \<open>g\<close> flag.\<close>

definition regexp_test :: "regexp \<Rightarrow> string \<Rightarrow> bool" where
  "regexp_test rx s = (regexp_exec rx s 0 \<noteq> None)"

text \<open>\<open>s.replace(pat, rep)\<close> for a string pattern: the first occurrence only.\<close>

fun replace_first :: "string \<Rightarrow> string \<Rightarrow> string \<Rightarrow> string" where
  "replace_first [] pat rep = (if pat = [] then rep else [])"
| "replace_first (ch # s) pat rep =
     (if prefix pat (ch # s) then rep @ drop (length pat) (ch # s)
      else ch # replace_first s pat rep)"

subsection \<open>The RegExp constructor\<close>

text \<open>
  \<open>new RegExp(source)\<close> without flags, for the part of the pattern syntax that \<open>re\<close>
  holds: pattern characters, \<open>.\<close>, \<open>^\<close>, \<open>|\<close>, capture groups, the greedy \<open>*\<close> and \<open>+\<close> on
  an atom that is not a group, classes of characters and ranges, the escapes \<open>\d \s \S \w\<close>
  and the escape of a character that is not a word character. A source is read from left
  to right. It is \<open>Invalid\<close>, a SyntaxError, when a parenthesis has no partner, a
  quantifier has nothing to repeat, a class is not closed or has a range out of order, or
  the source ends in a backslash. It is \<open>Beyond\<close> from the first character that takes it
  out of this part: \<open>?\<close>, \<open>$\<close>, a brace before a digit, a quantifier on a group, any other
  escape, a class with \<open>^\<close> or a backslash. As in Annex B of ECMAScript, \<open>]\<close>, \<open>}\<close> and a
  \<open>{\<close> that starts no quantifier are pattern characters.
\<close>

datatype parsed = Pattern regexp | Invalid | Beyond

text \<open>What a quantifier that comes next would apply to.\<close>

datatype prev = Nothing | Simple | Group

text \<open>
  The alternatives of a disjunction that are complete, last first, and the terms of the
  one being read, last first.
\<close>

definition disjunction :: "re list \<Rightarrow> re list \<Rightarrow> re" where
  "disjunction alts cur = foldl (\<lambda>r alt. Alt alt r) (seqs (rev cur)) alts"

text \<open>The characters of a class body without escapes; nothing for a range out of order.\<close>

fun class_ranges :: "string \<Rightarrow> string option" where
  "class_ranges (a # m # b # cs) =
     (if m = CHR ''-'' then
        (if (of_char a :: nat) \<le> of_char b
         then map_option ((@) (map char_of [of_char a ..< Suc (of_char b)])) (class_ranges cs)
         else None)
      else map_option ((#) a) (class_ranges (m # b # cs)))"
| "class_ranges cs = Some cs"

text \<open>
  The stack holds, for every group that is open, its number and the disjunction around
  it; \<open>n\<close> counts the groups opened so far.
\<close>

function parse ::
  "(nat \<times> re list \<times> re list) list \<Rightarrow> re list \<Rightarrow> re list \<Rightarrow> prev \<Rightarrow> nat \<Rightarrow> string \<Rightarrow> parsed"
  where
  "parse stack alts cur p n [] =
     (if stack = [] then Pattern \<lparr>pattern = disjunction alts cur, rflags = no_flags, ngroups = n\<rparr>
      else Invalid)"
| "parse stack alts cur p n (ch # s) =
     (if ch = CHR ''('' then parse ((Suc n, alts, cur) # stack) [] [] Nothing (Suc n) s
      else if ch = CHR '')'' then
        (case stack of
           [] \<Rightarrow> Invalid
         | (k, alts', cur') # stack' \<Rightarrow>
             parse stack' alts' (Grp k (disjunction alts cur) # cur') Group n s)
      else if ch = CHR ''|'' then parse stack (seqs (rev cur) # alts) [] Nothing n s
      else if ch = CHR ''*'' \<or> ch = CHR ''+'' then
        (case p of
           Nothing \<Rightarrow> Invalid
         | Group \<Rightarrow> Beyond
         | Simple \<Rightarrow>
             parse stack alts ((if ch = CHR ''*'' then Star (hd cur) else Plus (hd cur)) # tl cur)
               Nothing n s)
      else if ch = CHR ''^'' then parse stack alts (Bol # cur) Nothing n s
      else if ch = CHR ''.'' then parse stack alts (Cls Dot # cur) Simple n s
      else if ch = CHR ''['' then
        (case dropWhile (\<lambda>x. x \<noteq> CHR '']'') s of
           [] \<Rightarrow> Invalid
         | _ # s' \<Rightarrow>
             (let body = takeWhile (\<lambda>x. x \<noteq> CHR '']'') s in
              if CHR 0x5C \<in> set body \<or> take 1 body = ''^'' then Beyond
              else case class_ranges body of
                     None \<Rightarrow> Invalid
                   | Some chars \<Rightarrow> parse stack alts (Cls (OneOf chars) # cur) Simple n s'))
      else if ch = CHR 0x5C then
        (case s of
           [] \<Rightarrow> Invalid
         | e # s' \<Rightarrow>
             if is_word e then
               (case map_of [(CHR ''d'', Digit), (CHR ''s'', Space), (CHR ''S'', NonSpace),
                             (CHR ''w'', Word)] e of
                  Some k \<Rightarrow> parse stack alts (Cls k # cur) Simple n s'
                | None \<Rightarrow> Beyond)
             else parse stack alts (Chr e # cur) Simple n s')
      else if ch = CHR ''?'' \<or> ch = CHR ''$'' \<or> (ch = CHR ''{'' \<and> list_ex is_digit (take 1 s))
        then Beyond
      else parse stack alts (Chr ch # cur) Simple n s)"
  by pat_completeness auto
termination
proof (relation "measure (\<lambda>(stack, alts, cur, p, n, s). length s)", goal_cases)
  case (8 stack alts cur p n ch s x21 s')
  have "length (dropWhile (\<lambda>x. x \<noteq> CHR '']'') s) \<le> length s" by (rule length_dropWhile_le)
  with 8 show ?case by simp
qed auto

declare parse.simps [simp del]

definition parse_pattern :: "string \<Rightarrow> parsed" where
  "parse_pattern source = parse [] [] [] Nothing 0 source"

section \<open>The suite tree, the events and the adapter\<close>

text \<open>\<open>TestInfo\<close> and \<open>TestSuiteInfo\<close> of vscode-test-adapter-api, with the fields the adapter sets.\<close>

datatype info =
    TestInfo (id_of: string) (label: "string option") (file_of: "string option") (line: int)
  | TestSuiteInfo (id_of: string) (label: "string option") (file_of: "string option")
      (children: "info list")

fun is_suite :: "info \<Rightarrow> bool" where
  "is_suite (TestSuiteInfo i l f cs) = True"
| "is_suite (TestInfo i l f n) = False"

fun is_test :: "info \<Rightarrow> bool" where
  "is_test (TestInfo i l f n) = True"
| "is_test (TestSuiteInfo i l f cs) = False"

datatype run_state = Running | Completed | Passed | Failed

datatype decoration = Decoration (d_line: js_number) (d_message: "string option")

datatype watcher = Autorun | Reload

text \<open>
  What the adapter does to the outside: the events it fires on its emitters, the error
  messages it shows, the processes it starts and the files it watches.
\<close>

datatype effect =
    TestLoadStarted
  | TestLoadFinished info
  | TestRunStarted "string list"
  | TestRunFinished
  | TestSuiteEvent string run_state
  | TestEvent string run_state "decoration list"
  | ShowErrorMessage string
  | Exec string
  | WatchFile string watcher

text \<open>The \<open>{error, stdout, stderr}\<close> a process resolves with; \<open>error\<close> is null or an Error.\<close>

record result =
  error :: "string option"
  stdout :: string
  stderr :: string

datatype js_error = TypeError | SyntaxError | ReadError string

text \<open>A directory tree: \<open>readdir\<close> fails on everything that is not a readable directory.\<close>

datatype fs_entry = File | Dir "(string \<times> fs_entry) list" | Unreadable

text \<open>
  The platform: the functions of \<open>path\<close>, the workspace folder, the file system and the
  processes. A process's result may depend on everything that happened before it. What the
  RegExp constructor makes of a source that is \<open>Beyond\<close> is left to the platform as well:
  an error, or a pattern, given by what its \<open>exec\<close> returns on a subject.
\<close>

record host =
  fsPath :: string
  path_sep :: string
  path_relative :: "string \<Rightarrow> string \<Rightarrow> string"
  path_resolve :: "string \<Rightarrow> string \<Rightarrow> string"
  path_join :: "string list \<Rightarrow> string"
  path_basename :: "string \<Rightarrow> string"
  path_extname :: "string \<Rightarrow> string"
  readFile :: "string \<Rightarrow> string option"
  directory :: "string \<Rightarrow> fs_entry"
  exec :: "effect list \<Rightarrow> string \<Rightarrow> result"
  regExp :: "string \<Rightarrow> js_error + (string \<Rightarrow> rmatch option)"

text \<open>The fields of \<open>UnityAdapter\<close>.\<close>

record adapter =
  testSuiteInfo :: info
  watchedFileForAutorunList :: "string list"
  watchedFileForReloadList :: "string list"
  projectSourcePath :: string
  testSourcePath :: string
  testBuildPath :: string
  testBuildCommandArgs :: string
  foldersCommandArgs :: string
  isPrettyTestLabelEnable :: bool
  isPrettyTestFileLabelEnable :: bool

subsection \<open>Labels\<close>

definition setTestLabel :: "adapter \<Rightarrow> string \<Rightarrow> string option" where
  "setTestLabel this testName =
     (if isPrettyTestLabelEnable this then
        (case regexp_exec testLabelRegex testName 0 of
           Some testLabelMatches \<Rightarrow> grp testLabelMatches 2
         | None \<Rightarrow> Some testName)
      else Some testName)"

definition setFileLabel :: "host \<Rightarrow> adapter \<Rightarrow> string \<Rightarrow> string option" where
  "setFileLabel h this fileName =
     (if isPrettyTestFileLabelEnable this then
        (case regexp_exec fileLabelRegex fileName 0 of
           Some labelMatches \<Rightarrow> grp labelMatches 2
         | None \<Rightarrow> Some (path_relative h (fsPath h) fileName))
      else Some (path_relative h (fsPath h) fileName))"

subsection \<open>Searching the tree\<close>

fun findSuite :: "info \<Rightarrow> string \<Rightarrow> info option"
  and findSuite_children :: "info \<Rightarrow> info list \<Rightarrow> string \<Rightarrow> info option" where
  "findSuite (TestInfo i l f n) ident = None"
| "findSuite (TestSuiteInfo i l f cs) ident =
     findSuite_children (TestSuiteInfo i l f cs) cs ident"
| "findSuite_children searchNode [] ident = None"
| "findSuite_children searchNode (child # rest) ident =
     (if id_of child = ident then (if is_suite child then Some child else Some searchNode)
      else if is_suite child then
        (case findSuite child ident of
           Some found \<Rightarrow> Some found
         | None \<Rightarrow> findSuite_children searchNode rest ident)
      else findSuite_children searchNode rest ident)"

fun findNode :: "info \<Rightarrow> string \<Rightarrow> info option"
  and findNode_children :: "info list \<Rightarrow> string \<Rightarrow> info option" where
  "findNode (TestInfo i l f n) ident =
     (if i = ident then Some (TestInfo i l f n) else None)"
| "findNode (TestSuiteInfo i l f cs) ident =
     (if i = ident then Some (TestSuiteInfo i l f cs) else findNode_children cs ident)"
| "findNode_children [] ident = None"
| "findNode_children (child # rest) ident =
     (case findNode child ident of
        Some found \<Rightarrow> Some found
      | None \<Rightarrow> findNode_children rest ident)"

subsection \<open>Scanning directories\<close>

fun getFileList :: "host \<Rightarrow> fs_entry \<Rightarrow> string \<Rightarrow> regexp \<Rightarrow> effect list \<times> string list"
  and getFileList_items ::
    "host \<Rightarrow> (string \<times> fs_entry) list \<Rightarrow> string \<Rightarrow> regexp \<Rightarrow> effect list \<times> string list" where
  "getFileList h (Dir filesAndFolders) filePath fileRegex =
     getFileList_items h filesAndFolders filePath fileRegex"
| "getFileList h File filePath fileRegex =
     ([ShowErrorMessage ''Cannot find test result path!''], [''''])"
| "getFileList h Unreadable filePath fileRegex =
     ([ShowErrorMessage ''Cannot find test result path!''], [''''])"
| "getFileList_items h [] filePath fileRegex = ([], [])"
| "getFileList_items h ((item, e) # rest) filePath fileRegex =
     (if e = File then
        (case getFileList_items h rest filePath fileRegex of
           (es, files) \<Rightarrow>
             (es, if regexp_test fileRegex item then path_resolve h filePath item # files
                  else files))
      else
        (case getFileList h e (path_resolve h filePath item) fileRegex of
           (es1, sub) \<Rightarrow>
             (case getFileList_items h rest filePath fileRegex of
                (es2, files) \<Rightarrow> (es1 @ es2, sub @ files))))"

fun watchFilesForAutorun ::
  "host \<Rightarrow> string list \<Rightarrow> adapter \<times> effect list \<Rightarrow> adapter \<times> effect list" where
  "watchFilesForAutorun h [] (this, t) = (this, t)"
| "watchFilesForAutorun h (file # files) (this, t) =
     (if file \<in> set (watchedFileForAutorunList this) then watchFilesForAutorun h files (this, t)
      else watchFilesForAutorun h files
             (this\<lparr>watchedFileForAutorunList := watchedFileForAutorunList this @ [file]\<rparr>,
              t @ [WatchFile (path_resolve h (fsPath h) file) Autorun]))"

fun watchFilesForReload ::
  "host \<Rightarrow> string list \<Rightarrow> adapter \<times> effect list \<Rightarrow> adapter \<times> effect list" where
  "watchFilesForReload h [] (this, t) = (this, t)"
| "watchFilesForReload h (file # files) (this, t) =
     (if file \<in> set (watchedFileForReloadList this) then watchFilesForReload h files (this, t)
      else watchFilesForReload h files
             (this\<lparr>watchedFileForReloadList := watchedFileForReloadList this @ [file]\<rparr>,
              t @ [WatchFile (path_resolve h (fsPath h) file) Reload]))"

subsection \<open>Running\<close>

definition testResultString :: string where
  "testResultString = '':(PASS|(FAIL: (.*)))''"

text \<open>
  \<open>new RegExp(source)\<close>: a SyntaxError, or a pattern, given by what its \<open>exec\<close> returns
  on a subject (the pattern has no \<open>g\<close> flag, so \<open>exec\<close> starts at 0).
\<close>

definition new_RegExp :: "host \<Rightarrow> string \<Rightarrow> js_error + (string \<Rightarrow> rmatch option)" where
  "new_RegExp h source =
     (case parse_pattern source of
        Pattern rx \<Rightarrow> Inr (\<lambda>s. regexp_exec rx s 0)
      | Invalid \<Rightarrow> Inl SyntaxError
      | Beyond \<Rightarrow> regExp h source)"

text \<open>
  The label of the node goes into the source of the pattern as it is; the running event
  is fired before the pattern is compiled.
\<close>

definition checkTestResult ::
  "host \<Rightarrow> info \<Rightarrow> string \<Rightarrow> effect list \<Rightarrow> (js_error + unit) \<times> effect list" where
  "checkTestResult h node suiteResult t =
     (let t1 = t @ [TestEvent (id_of node) Running []] in
      case new_RegExp h ('':([0-9]+):.*'' @ to_string (label node) @ testResultString) of
        Inl err \<Rightarrow> (Inl err, t1)
      | Inr testResultRegex_exec \<Rightarrow>
          (case testResultRegex_exec suiteResult of
             None \<Rightarrow> (Inr (), t1)
           | Some match \<Rightarrow>
               if grp match 2 = Some ''PASS''
               then (Inr (), t1 @ [TestEvent (id_of node) Passed []])
               else (Inr (), t1 @ [TestEvent (id_of node) Failed
                                     [Decoration (minus_one (parseInt (to_string (grp match 1))))
                                        (grp match 4)]])))"

definition runMake :: "host \<Rightarrow> string \<Rightarrow> effect list \<Rightarrow> result \<times> effect list" where
  "runMake h makeArgs t = (exec h t (''make '' @ makeArgs), t @ [Exec (''make '' @ makeArgs)])"

definition runExe :: "host \<Rightarrow> string \<Rightarrow> effect list \<Rightarrow> result \<times> effect list" where
  "runExe h exePath t = (exec h t exePath, t @ [Exec exePath])"

definition createFolders :: "host \<Rightarrow> adapter \<Rightarrow> effect list \<Rightarrow> result \<times> effect list" where
  "createFolders h this t = runMake h (foldersCommandArgs this) t"

definition exeOf :: "host \<Rightarrow> adapter \<Rightarrow> string \<Rightarrow> string" where
  "exeOf h this f =
     path_join h [testBuildPath this, path_sep h,
                  replace_first (path_basename h f) (path_extname h f) ''.exe'']"

definition buildTest :: "host \<Rightarrow> adapter \<Rightarrow> info \<Rightarrow> effect list \<Rightarrow> result option \<times> effect list" where
  "buildTest h this node t =
     (case file_of node of
        None \<Rightarrow> (None, t)
      | Some f \<Rightarrow>
          (let exePath = map (\<lambda>ch. if ch = CHR 0x5C then CHR ''/'' else ch) (exeOf h this f) in
           case runMake h (testBuildCommandArgs this @ '' '' @ exePath) t of
             (r, t') \<Rightarrow> (Some r, t')))"

definition runTest :: "host \<Rightarrow> adapter \<Rightarrow> info \<Rightarrow> effect list \<Rightarrow> result option \<times> effect list" where
  "runTest h this node t =
     (case file_of node of
        None \<Rightarrow> (None, t)
      | Some f \<Rightarrow>
          (let exePath = [CHR 0x22] @ path_join h [fsPath h, exeOf h this f] @ [CHR 0x22] in
           case runExe h exePath t of (r, t') \<Rightarrow> (Some r, t')))"

text \<open>
  \<open>result.error\<close> on the \<open>undefined\<close> that \<open>buildTest\<close> returns for a node without a file
  is a TypeError.
\<close>

definition runSuiteExe ::
  "host \<Rightarrow> adapter \<Rightarrow> info \<Rightarrow> effect list \<Rightarrow> (js_error + result option) \<times> effect list" where
  "runSuiteExe h this node t =
     (case buildTest h this node (t @ [TestSuiteEvent (id_of node) Running]) of
        (None, t1) \<Rightarrow> (Inl TypeError, t1)
      | (Some result, t1) \<Rightarrow>
          (case error result of
             Some err \<Rightarrow>
               (Inr (Some result),
                t1 @ [ShowErrorMessage (''Cannot build test executable. Make error:'' @ [LF] @ err),
                      TestSuiteEvent (id_of node) Completed])
           | None \<Rightarrow>
               (case runTest h this node t1 of
                  (result', t2) \<Rightarrow> (Inr result', t2 @ [TestSuiteEvent (id_of node) Completed]))))"

definition failAll :: "info \<Rightarrow> effect list" where
  "failAll suite = map (\<lambda>child. TestEvent (id_of child) Failed []) (children suite)"

definition cannotRun :: "string \<Rightarrow> effect" where
  "cannotRun suiteOrTestId =
     ShowErrorMessage (''Cannot run test executable for '' @ suiteOrTestId @ '' .'')"

text \<open>The loop over the children of a suite that was run; an error ends it.\<close>

fun checkChildren ::
  "host \<Rightarrow> info list \<Rightarrow> string \<Rightarrow> effect list \<Rightarrow> (js_error + unit) \<times> effect list" where
  "checkChildren h [] suiteResult t = (Inr (), t)"
| "checkChildren h (child # rest) suiteResult t =
     (if is_test child then
        (case checkTestResult h child suiteResult t of
           (Inl err, t') \<Rightarrow> (Inl err, t')
         | (Inr u, t') \<Rightarrow> checkChildren h rest suiteResult t')
      else checkChildren h rest suiteResult t)"

text \<open>One turn of the loop of \<open>runSuites\<close>.\<close>

definition runSuites_body ::
  "host \<Rightarrow> adapter \<Rightarrow> string \<Rightarrow> effect list \<Rightarrow> (js_error + unit) \<times> effect list" where
  "runSuites_body h this suiteOrTestId t =
     (case findSuite (testSuiteInfo this) suiteOrTestId of
        None \<Rightarrow> (Inr (), t)
      | Some suite \<Rightarrow>
          if \<not> is_suite suite then (Inr (), t)
          else
            (case runSuiteExe h this suite t of
               (Inl err, t1) \<Rightarrow> (Inl err, t1)
             | (Inr None, t1) \<Rightarrow> (Inl TypeError, t1)
             | (Inr (Some result), t1) \<Rightarrow>
                 if suiteOrTestId = id_of suite then
                   (if error result \<noteq> None \<and> stdout result = [] then
                      (Inr (), t1 @ failAll suite @
                         (if search (stderr result) accessRegex \<noteq> 0
                          then [cannotRun suiteOrTestId] else []))
                    else checkChildren h (children suite) (stdout result) t1)
                 else
                   (if error result \<noteq> None \<and> stdout result = [] then
                      (Inr (), t1 @ failAll suite @ [cannotRun suiteOrTestId])
                    else
                      (case findNode (testSuiteInfo this) suiteOrTestId of
                         None \<Rightarrow> (Inr (), t1)
                       | Some node \<Rightarrow>
                           if is_test node
                           then checkTestResult h node (stdout result) t1
                           else (Inr (), t1)))))"

fun runSuites ::
  "host \<Rightarrow> adapter \<Rightarrow> string list \<Rightarrow> effect list \<Rightarrow> (js_error + unit) \<times> effect list" where
  "runSuites h this [] t = (Inr (), t)"
| "runSuites h this (suiteOrTestId # tests) t =
     (case runSuites_body h this suiteOrTestId t of
        (Inl err, t') \<Rightarrow> (Inl err, t')
      | (Inr u, t') \<Rightarrow> runSuites h this tests t')"

text \<open>The loop of \<open>run\<close> over the children of the root.\<close>

fun run_root ::
  "host \<Rightarrow> adapter \<Rightarrow> info list \<Rightarrow> effect list \<Rightarrow> (js_error + unit) \<times> effect list" where
  "run_root h this [] t = (Inr (), t)"
| "run_root h this (suite # rest) t =
     (if is_suite suite then
        (case runSuites h this [id_of suite] t of
           (Inl err, t') \<Rightarrow> (Inl err, t')
         | (Inr u, t') \<Rightarrow> run_root h this rest t')
      else run_root h this rest t)"

definition foldersMessage :: string where
  "foldersMessage = ''Cannot run make target to create folders needed for output. Please check foldersCommandArgs in settings.''"

definition run ::
  "host \<Rightarrow> adapter \<Rightarrow> string list \<Rightarrow> effect list \<Rightarrow> (js_error + unit) \<times> effect list" where
  "run h this tests t =
     (let t1 = t @ [TestRunStarted tests];
          t2 = (if foldersCommandArgs this \<noteq> [] then
                  (case createFolders h this t1 of
                     (result, t') \<Rightarrow>
                       if error result \<noteq> None then t' @ [ShowErrorMessage foldersMessage] else t')
                else t1)
      in case (if take 1 tests = [''root'']
               then run_root h this (children (testSuiteInfo this)) t2
               else runSuites h this tests t2) of
           (Inl err, t3) \<Rightarrow> (Inl err, t3)
         | (Inr u, t3) \<Rightarrow> (Inr (), t3 @ [TestRunFinished]))"

section \<open>The two mutexes\<close>

text \<open>
  \<open>runMake\<close> and \<open>runExe\<close> have one shape: await \<open>acquire()\<close>, then, inside \<open>try\<close>, return a
  new promise whose executor starts the process, and call \<open>release()\<close> in \<open>finally\<close>. The
  promise is returned, not awaited, so \<open>finally\<close> runs in the turn that started the process.
  A call goes through these phases; the scheduler picks which caller moves next.
\<close>

datatype phase = Idle | Queued | Holding | Spawned | Settled

record domain =
  locked :: bool
  waiters :: "nat list"
  phase_of :: "nat \<Rightarrow> phase"
  alive :: "nat list"

datatype turn = Call nat | Resume nat | Exit nat

text \<open>\<open>release()\<close> of async-mutex hands the lock to the first waiter, if there is one.\<close>

definition release :: "domain \<Rightarrow> domain" where
  "release d =
     (case waiters d of
        [] \<Rightarrow> d\<lparr>locked := False\<rparr>
      | w # ws \<Rightarrow> d\<lparr>waiters := ws, phase_of := (phase_of d)(w := Holding)\<rparr>)"

text \<open>
  \<open>Call i\<close>: caller \<open>i\<close> enters the function and \<open>acquire()\<close> takes the lock or queues.
  \<open>Resume i\<close>: the continuation of the \<open>await\<close> starts the process, then \<open>finally\<close> releases.
  \<open>Exit i\<close>: the process of \<open>i\<close> ends and its callback resolves the promise.
\<close>

fun step :: "domain \<Rightarrow> turn \<Rightarrow> domain" where
  "step d (Call i) =
     (if phase_of d i \<noteq> Idle then d
      else if locked d then d\<lparr>waiters := waiters d @ [i], phase_of := (phase_of d)(i := Queued)\<rparr>
      else d\<lparr>locked := True, phase_of := (phase_of d)(i := Holding)\<rparr>)"
| "step d (Resume i) =
     (if phase_of d i \<noteq> Holding then d
      else release (d\<lparr>alive := alive d @ [i], phase_of := (phase_of d)(i := Spawned)\<rparr>))"
| "step d (Exit i) =
     (if phase_of d i \<noteq> Spawned then d
      else d\<lparr>alive := removeAll i (alive d), phase_of := (phase_of d)(i := Settled)\<rparr>)"

definition idle :: domain where
  "idle = \<lparr>locked = False, waiters = [], phase_of = (\<lambda>i. Idle), alive = []\<rparr>"

definition schedule :: "turn list \<Rightarrow> domain" where
  "schedule turns = foldl step idle turns"

section \<open>Observing effects, matches and trees\<close>

text \<open>The error messages among the effects.\<close>

fun error_messages :: "effect list \<Rightarrow> string list" where
  "error_messages [] = []"
| "error_messages (ShowErrorMessage m # es) = m # error_messages es"
| "error_messages (e # es) = error_messages es"

text \<open>The pattern matches the subject from position \<open>k\<close>.\<close>

definition matches_at :: "regexp \<Rightarrow> string \<Rightarrow> nat \<Rightarrow> bool" where
  "matches_at rx s k =
     (ms (pattern rx) (rflags rx) (rev (take k s), drop k s, replicate (Suc (ngroups rx)) None)
      \<noteq> [])"

text \<open>A label that is a word, as every C identifier is.\<close>

definition plain_label :: "info \<Rightarrow> bool" where
  "plain_label node = list_all is_word (to_string (label node))"

text \<open>The load-finished events among the effects.\<close>

fun finished_loads :: "effect list \<Rightarrow> info list" where
  "finished_loads [] = []"
| "finished_loads (TestLoadFinished suite # es) = suite # finished_loads es"
| "finished_loads (e # es) = finished_loads es"





section \<open>A concrete workspace\<close>

text \<open>
  A workspace \<open>C:/w\<close> with one test file, a build that succeeds and a test executable that
  cannot be started because its file is in use. The tree of the adapter is the one that
  \<open>loadTests\<close> makes of the test file. No pattern outside the part that \<open>parse\<close> reads is
  compiled in it, so its \<open>regExp\<close> is never asked.
\<close>

definition demo_host :: host where
  "demo_host =
     \<lparr>fsPath = ''C:/w'', path_sep = ''/'',
      path_relative = (\<lambda>from to. drop (Suc (length from)) to),
      path_resolve = (\<lambda>dir item. if take 1 item = ''/'' then item else dir @ ''/'' @ item),
      path_join = foldl (\<lambda>a p. if a = [] then p
                                else if last a = CHR ''/'' \<or> take 1 p = ''/'' then a @ p
                                else a @ ''/'' @ p) [],
      path_basename = (\<lambda>f. rev (takeWhile (\<lambda>ch. ch \<noteq> CHR ''/'') (rev f))),
      path_extname = (\<lambda>f. ''.c''),
      readFile = (\<lambda>f. if f = ''C:/w/test/a_test.c''
                       then Some (''#include <unity.h>'' @ [LF] @ [LF] @
                                  ''void test_one(void)'' @ [LF] @ ''{'' @ [LF] @ ''}'' @ [LF])
                       else None),
      directory = (\<lambda>p. if p = ''C:/w/test'' then Dir [(''a_test.c'', File)] else Unreadable),
      exec = (\<lambda>t cmd. if take 5 cmd = ''make ''
                        then \<lparr>error = None, stdout = ''cc -o a_test.exe'', stderr = []\<rparr>
                        else \<lparr>error = Some ''Command failed'', stdout = [],
                              stderr = accessMessage\<rparr>),
      regExp = (\<lambda>source. Inl SyntaxError)\<rparr>"

definition demo_suite :: info where
  "demo_suite =
     TestSuiteInfo ''C:/w/test/a_test.c'' (Some ''test/a_test.c'') (Some ''C:/w/test/a_test.c'')
       [TestInfo ''C:/w/test/a_test.c::test_one'' (Some ''test_one'') (Some ''C:/w/test/a_test.c'') 2]"

definition demo_adapter :: adapter where
  "demo_adapter =
     \<lparr>testSuiteInfo = TestSuiteInfo ''root'' (Some ''Unity'') None [demo_suite],
      watchedFileForAutorunList = [], watchedFileForReloadList = [],
      projectSourcePath = ''C:/w/src'', testSourcePath = ''C:/w/test'', testBuildPath = ''build'',
      testBuildCommandArgs = ''-s'', foldersCommandArgs = [],
      isPrettyTestLabelEnable = False, isPrettyTestFileLabelEnable = False\<rparr>"

section \<open>Extracting the tests of the files\<close>

text \<open>The two assignments to \<open>line\<close> in the loop of \<open>loadTests\<close>.\<close>

definition lineOf :: "string \<Rightarrow> rmatch \<Rightarrow> int" where
  "lineOf fileText match =
     (let line = int (length (split (substr0 fileText (int (index match))) LF)) - 1 in
      line + int (length (split (substr0 (to_string (grp match 0))
                                         (search (to_string (grp match 0)) nonSpaceRegex)) LF)) - 1)"

text \<open>The \<open>TestInfo\<close> pushed for one match.\<close>

definition testInfoOf :: "adapter \<Rightarrow> string \<Rightarrow> string \<Rightarrow> rmatch \<Rightarrow> info" where
  "testInfoOf this file fileText match =
     (let testName = to_string (grp match 1) @ to_string (grp match 2) in
      TestInfo (file @ ''::'' @ testName) (setTestLabel this testName) (Some file)
        (lineOf fileText match))"

text \<open>
  The \<open>while (match != null)\<close> loop runs \<open>exec\<close> from the \<open>lastIndex\<close> the previous match
  left. It ends because every match of \<open>testNameRegex\<close> holds the word \<open>void\<close>, so
  \<open>lastIndex\<close> grows; the lemmas up to \<open>testName_exec_progress\<close> show that.
\<close>

text \<open>A state reached from another by consuming some of the text.\<close>

definition ext :: "mstate \<Rightarrow> mstate \<Rightarrow> bool" where
  "ext st st' = (\<exists>w. fst st' = rev w @ fst st \<and> fst (snd st) = w @ fst (snd st'))"

lemma ext_refl: "ext st st" by (simp add: ext_def)

lemma ext_trans: "ext a b \<Longrightarrow> ext b c \<Longrightarrow> ext a c"
  by (auto simp: ext_def)

lemma star_ms_ext:
  assumes f: "\<And>st st'. st' \<in> set (f st) \<Longrightarrow> ext st st'"
  shows "st' \<in> set (star_ms f n st) \<Longrightarrow> ext st st'"
proof (induction n arbitrary: st)
  case 0
  then show ?case by (simp add: ext_refl)
next
  case (Suc n)
  show ?case
  proof (cases "st' = st")
    case True
    then show ?thesis by (simp add: ext_refl)
  next
    case False
    with Suc.prems obtain mid where "mid \<in> set (f st)" "st' \<in> set (star_ms f n mid)"
      by (auto split: if_splits)
    then show ?thesis using f Suc.IH ext_trans by blast
  qed
qed

lemma ms_ext: "st' \<in> set (ms r fl st) \<Longrightarrow> ext st st'"
proof (induction r arbitrary: st st')
  case (Chr x)
  then show ?case by (auto simp: ext_def split: prod.splits list.splits if_splits)
next
  case (Cls x)
  then show ?case by (auto simp: ext_def split: prod.splits list.splits if_splits)
next
  case Bol
  then show ?case by (auto simp: ext_refl split: list.splits if_splits)
next
  case Eps
  then show ?case by (simp add: ext_refl)
next
  case (Seq r1 r2)
  then obtain mid where "mid \<in> set (ms r1 fl st)" "st' \<in> set (ms r2 fl mid)" by auto
  then show ?case using Seq.IH ext_trans by blast
next
  case (Alt r1 r2)
  then have "st' \<in> set (ms r1 fl st) \<or> st' \<in> set (ms r2 fl st)" by simp
  then show ?case using Alt.IH by blast
next
  case (Star r)
  then have "st' \<in> set (star_ms (ms r fl) (length (fst (snd st))) st)" by simp
  then show ?case using star_ms_ext[of "ms r fl"] Star.IH by blast
next
  case (Grp n r)
  then obtain b a c where "(b, a, c) \<in> set (ms r fl st)" "st' = (b, a, c[n := Some (rev (take (length b - length (fst st)) b))])"
    by auto
  then show ?case using Grp.IH[of "(b, a, c)" st] by (simp add: ext_def)
qed

lemma ms_Lit:
  "\<not> ignoreCase fl \<Longrightarrow>
   ms (Lit w) fl (b, a, c) = (if prefix w a then [(rev w @ b, drop (length w) a, c)] else [])"
proof (induction w arbitrary: b a)
  case Nil
  then show ?case by (simp add: Lit_def)
next
  case (Cons x w)
  have unf: "Lit (x # w) = Seq (Chr x) (Lit w)" by (simp add: Lit_def)
  show ?case
  proof (cases a)
    case Nil
    then show ?thesis by (simp add: unf)
  next
    case (Cons y ys)
    then show ?thesis using Cons.IH[OF Cons.prems, of "y # b" ys] Cons.prems
      by (auto simp: unf)
  qed
qed

lemma star_ms_SucD:
  "st' \<in> set (star_ms f (Suc n) st) \<Longrightarrow>
   st' = st \<or> (\<exists>mid \<in> set (f st). length (fst (snd mid)) < length (fst (snd st)) \<and>
                      st' \<in> set (star_ms f n mid))"
  by (auto split: if_splits)

lemma star_cls:
  "st' \<in> set (star_ms (ms (Cls k) fl) n (b, a, c)) \<Longrightarrow>
   \<exists>w. list_all (in_cls k) w \<and> prefix w a \<and> st' = (rev w @ b, drop (length w) a, c)"
proof (induction n arbitrary: b a)
  case 0
  then show ?case by (intro exI[of _ "[]"]) simp
next
  case (Suc n)
  show ?case
  proof (cases "st' = (b, a, c)")
    case True
    then show ?thesis by (intro exI[of _ "[]"]) simp
  next
    case False
    with star_ms_SucD[OF Suc.prems] obtain mid where mid: "mid \<in> set (ms (Cls k) fl (b, a, c))"
      and m0: "st' \<in> set (star_ms (ms (Cls k) fl) n mid)"
      by blast
    from mid obtain x xs where a: "a = x # xs" and x: "in_cls k x" and mid_eq: "mid = (x # b, xs, c)"
      by (cases a) (auto split: if_splits)
    from m0 mid_eq have m: "st' \<in> set (star_ms (ms (Cls k) fl) n (x # b, xs, c))" by simp
    from Suc.IH[OF m] obtain w where w: "list_all (in_cls k) w" "prefix w xs"
      "st' = (rev w @ x # b, drop (length w) xs, c)" by blast
    show ?thesis using w a x by (intro exI[of _ "x # w"]) simp
  qed
qed

lemma ms_Star_Cls:
  "st' \<in> set (ms (Star (Cls k)) fl (b, a, c)) \<Longrightarrow>
   \<exists>w. list_all (in_cls k) w \<and> prefix w a \<and> st' = (rev w @ b, drop (length w) a, c)"
  using star_cls[of st' k fl "length a" b a c] by simp

lemma scan_SomeD:
  "scan rx k b a = Some m \<Longrightarrow>
   \<exists>w a0 b' a' c' rest. a = w @ a0 \<and>
      ms (pattern rx) (rflags rx) (rev w @ b, a0, replicate (Suc (ngroups rx)) None) = (b', a', c') # rest \<and>
      index m = length b + length w \<and> m_end m = length b' \<and>
      groups m = c'[0 := Some (rev (take (length b' - (length b + length w)) b'))]"
proof (induction k arbitrary: b a)
  case 0
  then show ?case by simp
next
  case (Suc k)
  show ?case
  proof (cases "ms (pattern rx) (rflags rx) (b, a, replicate (Suc (ngroups rx)) None)")
    case Nil
    with Suc.prems obtain x xs where a: "a = x # xs" and s: "scan rx k (x # b) xs = Some m"
      by (cases a) auto
    from Suc.IH[OF s] obtain w a0 b' a' c' rest where
      "xs = w @ a0"
      "ms (pattern rx) (rflags rx) (rev w @ x # b, a0, replicate (Suc (ngroups rx)) None) = (b', a', c') # rest"
      "index m = length (x # b) + length w" "m_end m = length b'"
      "groups m = c'[0 := Some (rev (take (length b' - (length (x # b) + length w)) b'))]"
      by blast
    then show ?thesis using a
      by (intro exI[of _ "x # w"] exI[of _ a0] exI[of _ b'] exI[of _ a'] exI[of _ c'] exI[of _ rest]) simp
  next
    case (Cons st rest)
    obtain b' a' c' where st: "st = (b', a', c')" by (cases st)
    with Cons Suc.prems show ?thesis
      by (intro exI[of _ "[]"] exI[of _ a] exI[of _ b'] exI[of _ a'] exI[of _ c'] exI[of _ rest]) auto
  qed
qed

lemma regexp_exec_SomeD:
  assumes "regexp_exec rx s li = Some m"
  shows "\<exists>w a' c' rest. li \<le> index m \<and> drop (index m) s = w @ a' \<and>
      ms (pattern rx) (rflags rx) (rev (take (index m) s), drop (index m) s, replicate (Suc (ngroups rx)) None)
        = (rev w @ rev (take (index m) s), a', c') # rest \<and>
      m_end m = index m + length w \<and> groups m = c'[0 := Some w]"
proof -
  from assms have le: "li \<le> length s"
    and sc: "scan rx (Suc (length s - li)) (rev (take li s)) (drop li s) = Some m"
    by (auto simp: regexp_exec_def split: if_splits)
  from scan_SomeD[OF sc] obtain w0 a0 b' a' c' rest where
    d: "drop li s = w0 @ a0"
    and m: "ms (pattern rx) (rflags rx) (rev w0 @ rev (take li s), a0, replicate (Suc (ngroups rx)) None) = (b', a', c') # rest"
    and i: "index m = length (rev (take li s)) + length w0" and e: "m_end m = length b'"
    and g: "groups m = c'[0 := Some (rev (take (length b' - (length (rev (take li s)) + length w0)) b'))]"
    by blast
  have s: "s = take li s @ w0 @ a0" using d by (metis append_take_drop_id)
  have idx: "index m = li + length w0" using i le by simp
  have tk: "take (index m) s = take li s @ w0"
    using s idx le by (metis append.assoc append_eq_conv_conj length_append length_take min.absorb2)
  have dr: "drop (index m) s = a0"
    using s tk by (metis append.assoc append_eq_conv_conj length_append idx le length_take min.absorb2)
  have "(b', a', c') \<in> set (ms (pattern rx) (rflags rx) (rev w0 @ rev (take li s), a0, replicate (Suc (ngroups rx)) None))"
    using m by simp
  from ms_ext[OF this] obtain w where w: "b' = rev w @ rev w0 @ rev (take li s)" "a0 = w @ a'"
    by (auto simp: ext_def)
  have c1: "drop (index m) s = w @ a'" using dr w by simp
  have c2: "ms (pattern rx) (rflags rx) (rev (take (index m) s), drop (index m) s, replicate (Suc (ngroups rx)) None)
        = (rev w @ rev (take (index m) s), a', c') # rest"
    using m w tk dr by simp
  have c3: "m_end m = index m + length w" using e w idx le by simp
  have c4: "groups m = c'[0 := Some w]" using g w le by simp
  have c0: "li \<le> index m" using idx by simp
  show ?thesis using c0 c1 c2 c3 c4 by blast
qed


lemma ms_Lit_D:
  "\<not> ignoreCase fl \<Longrightarrow> st' \<in> set (ms (Lit w) fl (b, a, c)) \<Longrightarrow>
   prefix w a \<and> st' = (rev w @ b, drop (length w) a, c)"
  by (simp add: ms_Lit split: if_splits)

lemma ms_Bol_D: "st' \<in> set (ms Bol fl st) \<Longrightarrow> st' = st"
  by (auto split: list.splits if_splits)

lemma ms_SeqD:
  "st' \<in> set (ms (Seq r1 r2) fl st) \<Longrightarrow> \<exists>mid \<in> set (ms r1 fl st). st' \<in> set (ms r2 fl mid)"
  by auto

lemma testName_shape:
  assumes "st' \<in> set (ms (pattern testNameRegex) (rflags testNameRegex) (b, a, c))"
  shows "\<exists>ws rest. list_all is_space ws \<and> prefix (ws @ ''void'' @ rest) a \<and>
           fst st' = rev (ws @ ''void'' @ rest) @ b \<and>
           fst (snd st') = drop (length (ws @ ''void'' @ rest)) a"
proof -
  let ?fl = "\<lparr>ignoreCase = False, multiline = True\<rparr>"
  from assms have "st' \<in> set (ms (Seq Bol (Seq (Star (Cls Space)) (Seq (Lit ''void'') (seqs testNameTail)))) ?fl (b, a, c))"
    by (simp add: testNameRegex_def)
  from ms_SeqD[OF this] obtain s1 where s1: "s1 \<in> set (ms Bol ?fl (b, a, c))"
    and m1: "st' \<in> set (ms (Seq (Star (Cls Space)) (Seq (Lit ''void'') (seqs testNameTail))) ?fl s1)"
    by blast
  from ms_Bol_D[OF s1] have s1_eq: "s1 = (b, a, c)" .
  from ms_SeqD[OF m1] obtain s2 where s2: "s2 \<in> set (ms (Star (Cls Space)) ?fl s1)"
    and m2: "st' \<in> set (ms (Seq (Lit ''void'') (seqs testNameTail)) ?fl s2)"
    by blast
  from ms_Star_Cls[OF s2[unfolded s1_eq]] obtain ws where ws: "list_all (in_cls Space) ws" "prefix ws a"
    and s2_eq: "s2 = (rev ws @ b, drop (length ws) a, c)" by blast
  from ms_SeqD[OF m2] obtain s3 where s3: "s3 \<in> set (ms (Lit ''void'') ?fl s2)"
    and m3: "st' \<in> set (ms (seqs testNameTail) ?fl s3)"
    by blast
  have "\<not> ignoreCase ?fl" by simp
  from ms_Lit_D[OF this s3[unfolded s2_eq]] have pv: "prefix ''void'' (drop (length ws) a)"
    and s3_eq: "s3 = (rev ''void'' @ rev ws @ b, drop (length ''void'') (drop (length ws) a), c)"
    by blast+
  from ms_ext[OF m3] obtain rest where r1: "fst st' = rev rest @ fst s3"
    and r2: "fst (snd s3) = rest @ fst (snd st')" by (auto simp: ext_def)
  have a_eq: "a = ws @ ''void'' @ rest @ fst (snd st')"
  proof -
    from ws(2) have "a = ws @ drop (length ws) a" by (metis prefix_def append_eq_conv_conj)
    moreover from pv have "drop (length ws) a = ''void'' @ drop (length ''void'') (drop (length ws) a)"
      by (metis prefix_def append_eq_conv_conj)
    moreover have "drop (length ''void'') (drop (length ws) a) = rest @ fst (snd st')"
      using r2 unfolding s3_eq by simp
    ultimately show ?thesis by simp
  qed
  have "list_all is_space ws" using ws(1) by (simp add: list_all_iff)
  moreover have "prefix (ws @ ''void'' @ rest) a" using a_eq by (metis append.assoc prefixI)
  moreover have "fst st' = rev (ws @ ''void'' @ rest) @ b" using r1 s3_eq by simp
  moreover have "fst (snd st') = drop (length (ws @ ''void'' @ rest)) a"
    using a_eq by (metis append.assoc append_eq_conv_conj)
  ultimately show ?thesis by blast
qed

lemma testName_exec_progress:
  assumes "regexp_exec testNameRegex s li = Some m"
  shows "li < m_end m \<and> m_end m \<le> length s"
proof -
  from regexp_exec_SomeD[OF assms] obtain w a' c' rest where
    li: "li \<le> index m" and d: "drop (index m) s = w @ a'"
    and m: "ms (pattern testNameRegex) (rflags testNameRegex)
              (rev (take (index m) s), drop (index m) s, replicate (Suc (ngroups testNameRegex)) None)
            = (rev w @ rev (take (index m) s), a', c') # rest"
    and e: "m_end m = index m + length w" by blast
  have "(rev w @ rev (take (index m) s), a', c') \<in> set (ms (pattern testNameRegex) (rflags testNameRegex)
              (rev (take (index m) s), drop (index m) s, replicate (Suc (ngroups testNameRegex)) None))"
    using m by simp
  from testName_shape[OF this] obtain ws rest' where
    "rev w @ rev (take (index m) s) = rev (ws @ ''void'' @ rest') @ rev (take (index m) s)" by auto
  then have "w = ws @ ''void'' @ rest'" by (simp only: append_same_eq rev_is_rev_conv)
  then have wpos: "0 < length w" by simp
  moreover have "length w \<le> length s - index m" using d
    by (metis length_append length_drop le_add1)
  moreover note wpos
  moreover have "index m \<le> length s" using d wpos
    by (metis append_is_Nil_conv drop_all length_0_conv less_irrefl nat_le_linear)
  ultimately show ?thesis using li e by (cases w) auto
qed

function testsFrom :: "adapter \<Rightarrow> string \<Rightarrow> string \<Rightarrow> nat \<Rightarrow> info list" where
  "testsFrom this file fileText lastIndex =
     (case regexp_exec testNameRegex fileText lastIndex of
        None \<Rightarrow> []
      | Some match \<Rightarrow>
          testInfoOf this file fileText match # testsFrom this file fileText (m_end match))"
  by pat_completeness auto
termination
  by (relation "measure (\<lambda>(this, file, fileText, lastIndex). length fileText - lastIndex)")
     (auto dest: testName_exec_progress)

declare testsFrom.simps [simp del]

fun loadTests_files :: "host \<Rightarrow> adapter \<Rightarrow> string list \<Rightarrow> js_error + info list" where
  "loadTests_files h this [] = Inr []"
| "loadTests_files h this (file # files) =
     (let fileLabel = setFileLabel h this file in
      case readFile h file of
        None \<Rightarrow> Inl (ReadError file)
      | Some fileText \<Rightarrow>
          (case loadTests_files h this files of
             Inl err \<Rightarrow> Inl err
           | Inr suites \<Rightarrow>
               Inr (TestSuiteInfo file fileLabel (Some file) (testsFrom this file fileText 0)
                    # suites)))"

definition loadTests :: "host \<Rightarrow> adapter \<Rightarrow> string list \<Rightarrow> js_error + info" where
  "loadTests h this files =
     (case loadTests_files h this files of
        Inl err \<Rightarrow> Inl err
      | Inr suites \<Rightarrow> Inr (TestSuiteInfo ''root'' (Some ''Unity'') None suites))"

definition load :: "host \<Rightarrow> adapter \<Rightarrow> effect list \<Rightarrow> (js_error + unit) \<times> adapter \<times> effect list" where
  "load h this t =
     (case getFileList h (directory h (projectSourcePath this)) (projectSourcePath this)
             sourceFileRegex of
        (es1, sourceFiles) \<Rightarrow>
     (case getFileList h (directory h (testSourcePath this)) (testSourcePath this)
             testSourceRegex of
        (es2, testFiles) \<Rightarrow>
     (case watchFilesForReload h testFiles
             (watchFilesForAutorun h testFiles
               (watchFilesForAutorun h sourceFiles (this, t @ [TestLoadStarted] @ es1 @ es2))) of
        (this', t') \<Rightarrow>
     (case loadTests h this' testFiles of
        Inl err \<Rightarrow> (Inl err, this', t')
      | Inr suite \<Rightarrow>
          (Inr (), this'\<lparr>testSuiteInfo := suite\<rparr>, t' @ [TestLoadFinished suite])))))"


section \<open>Two more workspaces\<close>

text \<open>
  The same workspace with two test files the first with a test written on one line, a build that
  succeeds and test executables that run; \<open>oneline_adapter\<close> is the adapter after \<open>load\<close>.
\<close>

definition oneline_host :: host where
  "oneline_host = demo_host
     \<lparr>readFile := (\<lambda>f. if f = ''C:/w/test/a_test.c''
                         then Some (''void test_d(void) { f(g(1)); }'' @ [LF])
                         else if f = ''C:/w/test/b_test.c''
                         then Some (''void test_e(void)'' @ [LF] @ ''{'' @ [LF] @ ''}'' @ [LF])
                         else None),
      directory := (\<lambda>p. if p = ''C:/w/test''
                          then Dir [(''a_test.c'', File), (''b_test.c'', File)]
                          else Dir []),
      exec := (\<lambda>t cmd. if take 5 cmd = ''make ''
                          then \<lparr>error = None, stdout = [], stderr = []\<rparr>
                          else \<lparr>error = None,
                                stdout = ''test/a_test.c:1:test_d:PASS'' @ [LF] @
                                         ''test/b_test.c:1:test_e:PASS'' @ [LF],
                                stderr = []\<rparr>)\<rparr>"

definition oneline_adapter :: adapter where
  "oneline_adapter = fst (snd (load oneline_host demo_adapter []))"




section \<open>Theorems\<close>

subsection \<open>Facts about \<open>exec\<close> and \<open>search\<close>\<close>

lemma scan_index_ge: "scan rx k b a = Some m \<Longrightarrow> length b \<le> index m"
  using scan_SomeD[of rx k b a m] by auto

lemma scan_None:
  "(\<And>w1 w2. a = w1 @ w2 \<Longrightarrow>
      ms (pattern rx) (rflags rx) (rev w1 @ b, w2, replicate (Suc (ngroups rx)) None) = []) \<Longrightarrow>
   scan rx k b a = None"
proof (induction k arbitrary: b a)
  case 0
  then show ?case by simp
next
  case (Suc k)
  from Suc.prems[of "[]" a]
  have here: "ms (pattern rx) (rflags rx) (b, a, replicate (Suc (ngroups rx)) None) = []" by simp
  show ?case
  proof (cases a)
    case Nil
    with here show ?thesis by simp
  next
    case (Cons x xs)
    have "scan rx k (x # b) xs = None"
    proof (rule Suc.IH)
      fix w1 w2 assume "xs = w1 @ w2"
      then have "a = (x # w1) @ w2" using Cons by simp
      from Suc.prems[OF this]
      show "ms (pattern rx) (rflags rx) (rev w1 @ x # b, w2, replicate (Suc (ngroups rx)) None) = []"
        by simp
    qed
    with here Cons show ?thesis by simp
  qed
qed

lemma regexp_exec_None:
  assumes "\<forall>k\<le>length s. \<not> matches_at rx s k"
  shows "regexp_exec rx s 0 = None"
proof -
  have "scan rx (Suc (length s)) [] s = None"
  proof (rule scan_None)
    fix w1 w2 assume s: "s = w1 @ w2"
    then have "length w1 \<le> length s" by simp
    with assms have "\<not> matches_at rx s (length w1)" by blast
    then show "ms (pattern rx) (rflags rx) (rev w1 @ [], w2, replicate (Suc (ngroups rx)) None) = []"
      using s by (simp add: matches_at_def)
  qed
  then show ?thesis by (simp add: regexp_exec_def)
qed

lemma search_access: "search s accessRegex = 0 \<longleftrightarrow> prefix accessMessage s"
proof (cases "prefix accessMessage s")
  case True
  then have "ms (Lit accessMessage) no_flags ([], s, [None])
             = [(rev accessMessage, drop (length accessMessage) s, [None])]"
    by (simp add: ms_Lit no_flags_def)
  then have "\<exists>m. regexp_exec accessRegex s 0 = Some m \<and> index m = 0"
    by (simp add: regexp_exec_def accessRegex_def)
  with True show ?thesis by (auto simp: search_def)
next
  case False
  then have here: "ms (Lit accessMessage) no_flags ([], s, [None]) = []"
    by (simp add: ms_Lit no_flags_def)
  have "search s accessRegex \<noteq> 0"
  proof (cases s)
    case Nil
    with here show ?thesis by (simp add: search_def regexp_exec_def accessRegex_def)
  next
    case (Cons x xs)
    with here have e: "regexp_exec accessRegex s 0 = scan accessRegex (length s) [x] xs"
      by (simp add: regexp_exec_def accessRegex_def)
    show ?thesis
    proof (cases "scan accessRegex (length s) [x] xs")
      case None
      with e show ?thesis by (simp add: search_def)
    next
      case (Some m)
      from scan_index_ge[OF Some] have "1 \<le> index m" by simp
      with e Some show ?thesis by (simp add: search_def)
    qed
  qed
  with False show ?thesis by simp
qed

lemma findSuite_is_suite:
  "findSuite n ident = Some found \<Longrightarrow> is_suite found"
  "findSuite_children sn cs ident = Some found \<Longrightarrow> is_suite sn \<Longrightarrow> is_suite found"
proof (induction n ident and sn cs ident arbitrary: found and found
       rule: findSuite_findSuite_children.induct)
  case (1 i l f n ident)
  then show ?case by simp
next
  case (2 i l f cs ident)
  then show ?case by simp
next
  case (3 searchNode ident)
  then show ?case by simp
next
  case (4 searchNode child rest ident)
  show ?case
  proof (cases "id_of child = ident")
    case True
    with "4.prems" show ?thesis by (cases "is_suite child") auto
  next
    case False
    show ?thesis
    proof (cases "is_suite child")
      case True
      show ?thesis
      proof (cases "findSuite child ident")
        case None
        with False True "4.prems" "4.IH"(2) show ?thesis by simp
      next
        case (Some f)
        with False True "4.prems" "4.IH"(1) show ?thesis by simp
      qed
    next
      case c: False
      with False "4.prems" "4.IH"(3) show ?thesis by simp
    qed
  qed
qed

subsection \<open>Facts about the RegExp constructor\<close>

lemma parse_word_char:
  assumes "is_word ch"
  shows "parse stack alts cur p n (ch # s) = parse stack alts (Chr ch # cur) Simple n s"
proof -
  from assms have "ch \<notin> set ''()|*+^.[?${'' \<and> ch \<noteq> CHR 0x5C"
    by (auto simp: is_word_def)
  then show ?thesis by (simp add: parse.simps)
qed

lemma parse_word:
  "list_all is_word w \<Longrightarrow>
   parse stack alts cur p n (w @ s)
     = parse stack alts (rev (map Chr w) @ cur) (if w = [] then p else Simple) n s"
proof (induction w arbitrary: cur p)
  case Nil
  then show ?case by simp
next
  case (Cons ch w)
  then have "is_word ch" "list_all is_word w" by simp_all
  from parse_word_char[OF this(1)] Cons.IH[OF this(2)] show ?case by simp
qed

lemma class_ranges_digits: "class_ranges ''0-9'' = Some ''0123456789''"
  by code_simp

text \<open>What the constructor makes of the source of \<open>checkTestResult\<close> for a word label.\<close>

lemma parse_testResult:
  assumes "list_all is_word lbl"
  shows "parse_pattern ('':([0-9]+):.*'' @ lbl @ testResultString) =
           Pattern \<lparr>pattern =
               seqs ([Chr CHR '':'', Grp 1 (seqs [Plus (Cls (OneOf ''0123456789''))]),
                      Chr CHR '':'', Star (Cls Dot)] @ map Chr lbl @
                     [Chr CHR '':'',
                      Grp 2 (Alt (seqs (map Chr ''PASS''))
                               (seqs [Grp 3 (seqs (map Chr ''FAIL: '' @
                                                   [Grp 4 (seqs [Star (Cls Dot)])]))]))]),
             rflags = no_flags, ngroups = 4\<rparr>"
  by (simp add: parse_pattern_def testResultString_def parse.simps parse_word[OF assms]
        class_ranges_digits disjunction_def is_word_def numeral_eq_Suc
      del: class_ranges.simps)

lemma concat_map_concat:
  "concat (map f (concat (map g xs))) = concat (map (\<lambda>x. concat (map f (g x))) xs)"
  by (induction xs) simp_all

lemma ms_Chrs:
  "ms (foldr Seq (map Chr w) r) fl = (\<lambda>st. concat (map (ms r fl) (ms (Lit w) fl st)))"
proof (induction w)
  case Nil
  show ?case by (rule ext) (simp add: Lit_def)
next
  case (Cons x w)
  have unf: "Lit (x # w) = Seq (Chr x) (Lit w)" by (simp add: Lit_def)
  show ?case
  proof
    fix st
    have "ms (foldr Seq (map Chr (x # w)) r) fl st
            = concat (map (ms (foldr Seq (map Chr w) r) fl) (ms (Chr x) fl st))"
      by (simp only: list.map foldr.simps o_apply ms.simps)
    also have "\<dots> = concat (map (\<lambda>m. concat (map (ms r fl) (ms (Lit w) fl m))) (ms (Chr x) fl st))"
      by (simp only: Cons.IH)
    also have "\<dots> = concat (map (ms r fl) (concat (map (ms (Lit w) fl) (ms (Chr x) fl st))))"
      by (simp only: concat_map_concat)
    also have "\<dots> = concat (map (ms r fl) (ms (Lit (x # w)) fl st))"
      by (simp only: unf ms.simps)
    finally show "ms (foldr Seq (map Chr (x # w)) r) fl st
                    = concat (map (ms r fl) (ms (Lit (x # w)) fl st))" .
  qed
qed

lemma ms_Seq_Eps: "ms (Seq r Eps) fl st = ms r fl st"
proof -
  have "concat (map (\<lambda>y. [y]) ys) = ys" for ys :: "mstate list" by (induction ys) auto
  moreover have "ms Eps fl = (\<lambda>y. [y])" by (rule ext) simp
  ultimately show ?thesis by simp
qed

lemma seqs_Cons: "seqs (r # rs) = Seq r (seqs rs)"
  by (simp add: seqs_def)

lemma ms_seqs_single: "ms (seqs [r]) fl = ms r fl"
proof
  fix st
  have "concat (map (\<lambda>y. [y]) ys) = ys" for ys :: "mstate list" by (induction ys) auto
  moreover have "ms Eps fl = (\<lambda>y. [y])" by (rule ext) simp
  ultimately show "ms (seqs [r]) fl st = ms r fl st" by (simp add: seqs_def)
qed

lemma ms_digits: "ms (Cls (OneOf ''0123456789'')) fl = ms (Cls Digit) fl"
  by (rule ext) (simp add: is_digit_def split: prod.splits list.splits)

lemma ms_Grp_cong: "ms r fl = ms r' fl \<Longrightarrow> ms (Grp k r) fl = ms (Grp k r') fl"
  by (rule ext) simp

lemma ms_Seq_cong:
  "ms r1 fl = ms r1' fl \<Longrightarrow> ms r2 fl = ms r2' fl \<Longrightarrow> ms (Seq r1 r2) fl = ms (Seq r1' r2') fl"
  by (rule ext) simp

lemma ms_Alt_cong:
  "ms r1 fl = ms r1' fl \<Longrightarrow> ms r2 fl = ms r2' fl \<Longrightarrow> ms (Alt r1 r2) fl = ms (Alt r1' r2') fl"
  by (rule ext) simp

lemma ms_Star_cong: "ms r fl = ms r' fl \<Longrightarrow> ms (Star r) fl = ms (Star r') fl"
  by (rule ext) simp

lemma ms_Chrs_Lit: "ms (seqs (map Chr w @ rs)) fl = ms (Seq (Lit w) (seqs rs)) fl"
  by (rule ext) (simp add: seqs_def ms_Chrs)

lemma ms_verdict:
  "ms (Grp 2 (Alt (seqs (map Chr ''PASS''))
                (seqs [Grp 3 (seqs (map Chr ''FAIL: '' @ [Grp 4 (seqs [Star (Cls Dot)])]))]))) fl
   = ms verdict fl"
proof -
  have 4: "ms (seqs [Grp 4 (seqs [Star (Cls Dot)])]) fl = ms (Grp 4 (Star (Cls Dot))) fl"
    by (simp only: ms_seqs_single ms_Grp_cong[OF ms_seqs_single])
  have 3: "ms (seqs (map Chr ''FAIL: '' @ [Grp 4 (seqs [Star (Cls Dot)])])) fl
             = ms (Seq (Lit ''FAIL: '') (Grp 4 (Star (Cls Dot)))) fl"
    by (simp only: ms_Chrs_Lit ms_Seq_cong[OF refl 4])
  have "ms (seqs (map Chr ''PASS'' @ [])) fl = ms (Seq (Lit ''PASS'') (seqs [])) fl"
    by (rule ms_Chrs_Lit)
  also have "\<dots> = ms (Lit ''PASS'') fl"
    by (rule ext) (simp only: seqs_def foldr.simps id_apply ms_Seq_Eps)
  finally have p: "ms (seqs (map Chr ''PASS'')) fl = ms (Lit ''PASS'') fl"
    by (simp only: append_Nil2)
  have g3: "ms (seqs [Grp 3 (seqs (map Chr ''FAIL: '' @ [Grp 4 (seqs [Star (Cls Dot)])]))]) fl
              = ms (Grp 3 (Seq (Lit ''FAIL: '') (Grp 4 (Star (Cls Dot))))) fl"
    by (simp only: ms_seqs_single ms_Grp_cong[OF 3])
  show ?thesis unfolding verdict_def
    by (rule ms_Grp_cong) (rule ms_Alt_cong[OF p g3])
qed

lemma ms_testResult:
  "ms (seqs ([Chr CHR '':'', Grp 1 (seqs [Plus (Cls (OneOf ''0123456789''))]),
              Chr CHR '':'', Star (Cls Dot)] @ map Chr lbl @
             [Chr CHR '':'',
              Grp 2 (Alt (seqs (map Chr ''PASS''))
                       (seqs [Grp 3 (seqs (map Chr ''FAIL: '' @
                                           [Grp 4 (seqs [Star (Cls Dot)])]))]))])) fl
   = ms (pattern (testResultRegex lbl)) fl"
proof -
  let ?v = "Grp 2 (Alt (seqs (map Chr ''PASS''))
                       (seqs [Grp 3 (seqs (map Chr ''FAIL: '' @
                                           [Grp 4 (seqs [Star (Cls Dot)])]))]))"
  have d: "ms (Plus (Cls (OneOf ''0123456789''))) fl = ms (Plus (Cls Digit)) fl"
    unfolding Plus_def by (rule ms_Seq_cong[OF ms_digits ms_Star_cong[OF ms_digits]])
  have "ms (Grp 1 (seqs [Plus (Cls (OneOf ''0123456789''))])) fl
          = ms (Grp 1 (Plus (Cls (OneOf ''0123456789'')))) fl"
    by (rule ms_Grp_cong[OF ms_seqs_single])
  also have "\<dots> = ms (Grp 1 (Plus (Cls Digit))) fl" by (rule ms_Grp_cong[OF d])
  finally have g1: "ms (Grp 1 (seqs [Plus (Cls (OneOf ''0123456789''))])) fl
                      = ms (Grp 1 (Plus (Cls Digit))) fl" .
  have a1: "seqs [Chr CHR '':'', ?v] = Seq (Chr CHR '':'') (Seq ?v Eps)"
    by (simp add: seqs_def)
  have a2: "seqs [Chr CHR '':'', verdict] = Seq (Chr CHR '':'') (Seq verdict Eps)"
    by (simp add: seqs_def)
  have e0: "ms (Seq (Chr CHR '':'') (Seq ?v Eps)) fl
              = ms (Seq (Chr CHR '':'') (Seq verdict Eps)) fl"
    by (rule ms_Seq_cong[OF refl ms_Seq_cong[OF ms_verdict refl]])
  have e: "ms (seqs [Chr CHR '':'', ?v]) fl = ms (seqs [Chr CHR '':'', verdict]) fl"
    using e0 by (simp only: a1 a2)
  have "ms (seqs (map Chr lbl @ [Chr CHR '':'', ?v])) fl
          = ms (Seq (Lit lbl) (seqs [Chr CHR '':'', ?v])) fl"
    by (rule ms_Chrs_Lit)
  also have "\<dots> = ms (Seq (Lit lbl) (seqs [Chr CHR '':'', verdict])) fl"
    by (rule ms_Seq_cong[OF refl e])
  finally have tl: "ms (seqs (map Chr lbl @ [Chr CHR '':'', ?v])) fl
                      = ms (Seq (Lit lbl) (seqs [Chr CHR '':'', verdict])) fl" .
  have l: "seqs ([Chr CHR '':'', Grp 1 (seqs [Plus (Cls (OneOf ''0123456789''))]),
              Chr CHR '':'', Star (Cls Dot)] @ map Chr lbl @ [Chr CHR '':'', ?v])
        = Seq (Chr CHR '':'') (Seq (Grp 1 (seqs [Plus (Cls (OneOf ''0123456789''))]))
            (Seq (Chr CHR '':'') (Seq (Star (Cls Dot)) (seqs (map Chr lbl @ [Chr CHR '':'', ?v])))))"
    by (simp only: append.simps seqs_Cons)
  have r: "pattern (testResultRegex lbl)
        = Seq (Chr CHR '':'') (Seq (Grp 1 (Plus (Cls Digit)))
            (Seq (Chr CHR '':'') (Seq (Star (Cls Dot)) (Seq (Lit lbl) (seqs [Chr CHR '':'', verdict])))))"
    by (simp add: testResultRegex_def seqs_def)
  show ?thesis unfolding l r
    by (rule ms_Seq_cong[OF refl ms_Seq_cong[OF g1 ms_Seq_cong[OF refl ms_Seq_cong[OF refl tl]]]])
qed

lemma scan_cong_ms:
  assumes "ms (pattern rx) (rflags rx) = ms (pattern rx') (rflags rx')"
    and "ngroups rx = ngroups rx'"
  shows "scan rx k b a = scan rx' k b a"
proof (induction k arbitrary: b a)
  case 0
  then show ?case by simp
next
  case (Suc k)
  then show ?case using assms by (simp split: list.splits)
qed

lemma new_RegExp_word:
  assumes "list_all is_word lbl"
  shows "new_RegExp h ('':([0-9]+):.*'' @ lbl @ testResultString)
           = Inr (\<lambda>s. regexp_exec (testResultRegex lbl) s 0)"
proof -
  let ?rx = "\<lparr>pattern =
               seqs ([Chr CHR '':'', Grp 1 (seqs [Plus (Cls (OneOf ''0123456789''))]),
                      Chr CHR '':'', Star (Cls Dot)] @ map Chr lbl @
                     [Chr CHR '':'',
                      Grp 2 (Alt (seqs (map Chr ''PASS''))
                               (seqs [Grp 3 (seqs (map Chr ''FAIL: '' @
                                                   [Grp 4 (seqs [Star (Cls Dot)])]))]))]),
             rflags = no_flags, ngroups = 4\<rparr>"
  have "ms (pattern ?rx) (rflags ?rx) = ms (pattern (testResultRegex lbl)) (rflags (testResultRegex lbl))"
    using ms_testResult[of lbl no_flags] by (simp add: testResultRegex_def)
  moreover have "ngroups ?rx = ngroups (testResultRegex lbl)" by (simp add: testResultRegex_def)
  ultimately have "scan ?rx k b a = scan (testResultRegex lbl) k b a" for k b a
    by (rule scan_cong_ms)
  then have "(\<lambda>s. regexp_exec ?rx s 0) = (\<lambda>s. regexp_exec (testResultRegex lbl) s 0)"
    by (intro ext) (simp only: regexp_exec_def)
  with parse_testResult[OF assms] show ?thesis by (simp add: new_RegExp_def)
qed

text \<open>\<open>checkTestResult\<close> for a word label, through the pattern \<open>testResultRegex\<close>.\<close>

lemma checkTestResult_word:
  assumes "plain_label node"
  shows "checkTestResult h node suiteResult t =
     (let t1 = t @ [TestEvent (id_of node) Running []] in
      case regexp_exec (testResultRegex (to_string (label node))) suiteResult 0 of
        None \<Rightarrow> (Inr (), t1)
      | Some match \<Rightarrow>
          if grp match 2 = Some ''PASS''
          then (Inr (), t1 @ [TestEvent (id_of node) Passed []])
          else (Inr (), t1 @ [TestEvent (id_of node) Failed
                                [Decoration (minus_one (parseInt (to_string (grp match 1))))
                                   (grp match 4)]]))"
  using new_RegExp_word[of "to_string (label node)" h] assms
  by (simp add: checkTestResult_def plain_label_def)

subsection \<open>The claims\<close>

text \<open>
  C1 (as the code has it, against the claim). The claim: the mutex of a domain is held for
  the whole life of the spawned process, so at most one process of the domain is alive at
  any instant. In the code \<open>release()\<close> runs in the turn that starts the process: after
  the first caller's turn its process is alive and the lock is free again, and when two
  callers have entered \<open>runMake\<close>, the second starts its process while the first's is
  still running.
\<close>

theorem runMake_processes_overlap:
  "alive (schedule [Call 0, Resume 0]) = [0] \<and> \<not> locked (schedule [Call 0, Resume 0]) \<and>
   alive (schedule [Call 0, Call 1, Resume 0, Resume 1]) = [0, 1]"
  by (simp add: schedule_def idle_def release_def)

text \<open>
  C3 (as stated, refuted). The claim: when no line of the output matches the pattern of
  the test, \<open>checkTestResult\<close> emits no event at all. On an output without any result line
  the running event of the test is emitted.
\<close>

theorem checkTestResult_no_match_counterexample:
  "regexp_exec (testResultRegex ''test_one'') ''OK'' 0 = None \<and>
   checkTestResult demo_host
     (TestInfo ''a_test.c::test_one'' (Some ''test_one'') (Some ''a_test.c'') 0) ''OK'' []
     = (Inr (), [TestEvent ''a_test.c::test_one'' Running []])"
  by code_simp

text \<open>
  C3 (amended). For every test node whose label is a word and every output that the
  result pattern of the label matches at no position, \<open>checkTestResult\<close> emits the running
  event of the test and nothing else: no passed or failed event, and no error.
\<close>

theorem checkTestResult_no_match:
  assumes "plain_label node"
    and "\<forall>k\<le>length suiteResult. \<not> matches_at (testResultRegex (to_string (label node))) suiteResult k"
  shows "checkTestResult h node suiteResult t = (Inr (), t @ [TestEvent (id_of node) Running []])"
  using regexp_exec_None[OF assms(2)] by (simp add: checkTestResult_word[OF assms(1)])

theorem checkTestResult_no_match_witness:
  "plain_label (TestInfo ''a_test.c::test_one'' (Some ''test_one'') (Some ''a_test.c'') 0) \<and>
   \<not> matches_at (testResultRegex ''test_one'') ''OK'' 0 \<and>
   \<not> matches_at (testResultRegex ''test_one'') ''OK'' 1 \<and>
   \<not> matches_at (testResultRegex ''test_one'') ''OK'' 2 \<and>
   checkTestResult demo_host
     (TestInfo ''a_test.c::test_one'' (Some ''test_one'') (Some ''a_test.c'') 0) ''OK'' []
     = (Inr (), [TestEvent ''a_test.c::test_one'' Running []])"
proof -
  let ?node = "TestInfo ''a_test.c::test_one'' (Some ''test_one'') (Some ''a_test.c'') 0"
  have p: "plain_label ?node"
    by (simp add: plain_label_def to_string_def is_word_def)
  have m: "\<not> matches_at (testResultRegex ''test_one'') ''OK'' k" for k
  proof -
    have "k = 0 \<or> k = 1 \<or> k = 2 \<or> 2 < k" by arith
    then show ?thesis
      by (elim disjE)
         (simp_all add: matches_at_def testResultRegex_def seqs_def no_flags_def)
  qed
  then have n: "\<forall>k\<le>length ''OK''. \<not> matches_at (testResultRegex (to_string (label ?node))) ''OK'' k"
    by (simp add: to_string_def)
  from checkTestResult_no_match[OF p n, of demo_host "[]"] p m show ?thesis by simp
qed

text \<open>
  C4 (as the code has it, against the claim). The claim: for a root whose directory read
  fails, \<open>getFileList\<close> returns no file path at all. The code returns one path, the empty
  string; \<open>load\<close> then hands it to \<open>loadTests\<close>, whose read of it fails, so a test root
  that cannot be read ends the load cycle with an error.
\<close>

theorem getFileList_unreadable_root:
  "getFileList h Unreadable filePath fileRegex
     = ([ShowErrorMessage ''Cannot find test result path!''], ['''']) \<and>
   fst (load demo_host (demo_adapter\<lparr>testSourcePath := ''C:/w/nope''\<rparr>) []) = Inl (ReadError '''')"
proof
  show "getFileList h Unreadable filePath fileRegex
          = ([ShowErrorMessage ''Cannot find test result path!''], [''''])"
    by simp
  show "fst (load demo_host (demo_adapter\<lparr>testSourcePath := ''C:/w/nope''\<rparr>) []) = Inl (ReadError '''')"
    by (simp add: load_def demo_host_def demo_adapter_def loadTests_def)
qed

text \<open>
  C7 (as stated, refuted). The claim: whenever the invocation for a suite returns an error
  with empty stdout, a user-visible error is surfaced. Here the build succeeds, the
  executable fails with empty stdout and a stderr that begins with the text the guard of
  \<open>runSuites\<close> looks for, and the suite is requested by its own id: no error message is
  shown.
\<close>

theorem runSuites_total_failure_counterexample:
  "fst (runSuiteExe demo_host demo_adapter demo_suite [])
     = Inr (Some \<lparr>error = Some ''Command failed'', stdout = [], stderr = accessMessage\<rparr>) \<and>
   error_messages (snd (runSuites demo_host demo_adapter [''C:/w/test/a_test.c''] [])) = []"
  by code_simp

text \<open>
  C7 (amended). For every requested id that resolves to a suite whose build or execute
  invocation returns an error together with empty stdout, the turn of \<open>runSuites\<close> for
  that id emits, after the events of the invocation, a failed event for every child of the
  suite and goes on to the next id without a call of \<open>checkTestResult\<close>; it shows the
  message that the test executable cannot be run, except when the id is the suite's own
  and stderr begins with the text "The process cannot access the file because it is being
  used by another process".
\<close>

theorem runSuites_total_failure:
  assumes "findSuite (testSuiteInfo this) suiteOrTestId = Some suite"
    and "runSuiteExe h this suite t = (Inr (Some result), t1)"
    and "error result \<noteq> None" and "stdout result = []"
  shows "runSuites h this (suiteOrTestId # tests) t =
           runSuites h this tests
             (t1 @ map (\<lambda>child. TestEvent (id_of child) Failed []) (children suite) @
                (if suiteOrTestId = id_of suite \<and> prefix accessMessage (stderr result) then []
                 else [ShowErrorMessage
                         (''Cannot run test executable for '' @ suiteOrTestId @ '' .'')]))"
proof -
  from findSuite_is_suite(1)[OF assms(1)] have s: "is_suite suite" .
  have "runSuites_body h this suiteOrTestId t =
          (Inr (), t1 @ failAll suite @
             (if suiteOrTestId = id_of suite \<and> prefix accessMessage (stderr result) then []
              else [cannotRun suiteOrTestId]))"
    using assms s by (simp add: runSuites_body_def search_access)
  then show ?thesis by (simp add: failAll_def cannotRun_def)
qed

theorem runSuites_total_failure_witness:
  "findSuite (testSuiteInfo demo_adapter) ''C:/w/test/a_test.c::test_one'' = Some demo_suite \<and>
   runSuites demo_host demo_adapter [''C:/w/test/a_test.c::test_one''] [] =
     (Inr (),
      snd (runSuiteExe demo_host demo_adapter demo_suite []) @
      [TestEvent ''C:/w/test/a_test.c::test_one'' Failed [],
       ShowErrorMessage ''Cannot run test executable for C:/w/test/a_test.c::test_one .''])"
proof -
  let ?r = "\<lparr>error = Some ''Command failed'', stdout = [], stderr = accessMessage\<rparr>"
  have f: "findSuite (testSuiteInfo demo_adapter) ''C:/w/test/a_test.c::test_one'' = Some demo_suite"
    by (simp add: demo_adapter_def demo_suite_def)
  have "fst (runSuiteExe demo_host demo_adapter demo_suite []) = Inr (Some ?r)"
    by (simp add: runSuiteExe_def buildTest_def runTest_def runMake_def runExe_def
          demo_host_def demo_suite_def)
  then have r: "runSuiteExe demo_host demo_adapter demo_suite []
                = (Inr (Some ?r), snd (runSuiteExe demo_host demo_adapter demo_suite []))"
    by (metis prod.collapse)
  have i: "''C:/w/test/a_test.c::test_one'' \<noteq> id_of demo_suite" by (simp add: demo_suite_def)
  from runSuites_total_failure[OF f r, of "[]"] i f
  show ?thesis by (simp add: demo_suite_def)
qed

text \<open>
  C10. For the empty request list, with no folders command configured, \<open>run\<close> fires the
  run-started event and then the run-finished event, with nothing between them: no suite
  or test event, and no process.
\<close>

theorem run_empty_request:
  assumes "foldersCommandArgs this = []"
  shows "run h this [] t = (Inr (), t @ [TestRunStarted [], TestRunFinished])"
  using assms by (simp add: run_def)

theorem run_empty_request_witness:
  "foldersCommandArgs demo_adapter = [] \<and>
   run demo_host demo_adapter [] [] = (Inr (), [TestRunStarted [], TestRunFinished])"
proof -
  have a: "foldersCommandArgs demo_adapter = []" by (simp add: demo_adapter_def)
  from run_empty_request[OF a, of demo_host "[]"] a show ?thesis by simp
qed


lemma loadTests_files_fail:
  "List.find (\<lambda>f. readFile h f = None) files = Some g \<Longrightarrow>
   loadTests_files h this files = Inl (ReadError g)"
  by (induction files) (auto split: if_splits)

lemma finished_loads_append: "finished_loads (xs @ ys) = finished_loads xs @ finished_loads ys"
  by (induction xs rule: finished_loads.induct) auto

lemma watchFilesForAutorun_keeps:
  "watchFilesForAutorun h files (this, t) = (this', t') \<Longrightarrow>
   testSuiteInfo this' = testSuiteInfo this \<and> finished_loads t' = finished_loads t"
  by (induction files arbitrary: this t) (auto simp: finished_loads_append split: if_splits)

lemma watchFilesForReload_keeps:
  "watchFilesForReload h files (this, t) = (this', t') \<Longrightarrow>
   testSuiteInfo this' = testSuiteInfo this \<and> finished_loads t' = finished_loads t"
  by (induction files arbitrary: this t) (auto simp: finished_loads_append split: if_splits)

lemma getFileList_no_finished:
  "finished_loads (fst (getFileList h e filePath rx)) = []"
  "finished_loads (fst (getFileList_items h items filePath rx)) = []"
  by (induction h e filePath rx and h items filePath rx rule: getFileList_getFileList_items.induct)
     (auto simp: finished_loads_append split: prod.splits)

text \<open>
  C8. When the read of one of the test files fails, \<open>loadTests\<close> ends with the read error
  of the first such file instead of a tree; and when these are the files that \<open>load\<close>
  finds under the test source path, \<open>load\<close> ends with that error, leaves the suite tree
  of the adapter as it was and fires no load-finished event.
\<close>

theorem loadTests_read_failure:
  assumes "f \<in> set files" and "readFile h f = None"
  shows "\<exists>g. List.find (\<lambda>f. readFile h f = None) files = Some g \<and>
           loadTests h this files = Inl (ReadError g) \<and>
           (snd (getFileList h (directory h (testSourcePath this)) (testSourcePath this)
                   testSourceRegex) = files \<longrightarrow>
            (\<exists>this' t'. load h this t = (Inl (ReadError g), this', t') \<and>
                 testSuiteInfo this' = testSuiteInfo this \<and>
                 finished_loads t' = finished_loads t))"
proof -
  from assms obtain g where g: "List.find (\<lambda>f. readFile h f = None) files = Some g"
    by (cases "List.find (\<lambda>f. readFile h f = None) files") (auto simp: find_None_iff)
  have lt: "loadTests h this' files = Inl (ReadError g)" for this'
    using loadTests_files_fail[OF g] by (simp add: loadTests_def)
  have "\<exists>this' t'. load h this t = (Inl (ReadError g), this', t') \<and>
          testSuiteInfo this' = testSuiteInfo this \<and> finished_loads t' = finished_loads t"
    if fl: "snd (getFileList h (directory h (testSourcePath this)) (testSourcePath this)
                  testSourceRegex) = files"
  proof -
    obtain es1 sourceFiles where s: "getFileList h (directory h (projectSourcePath this))
        (projectSourcePath this) sourceFileRegex = (es1, sourceFiles)" by (cases "getFileList h (directory h (projectSourcePath this))
        (projectSourcePath this) sourceFileRegex")
    obtain es2 where u: "getFileList h (directory h (testSourcePath this))
        (testSourcePath this) testSourceRegex = (es2, files)" using fl by (cases "getFileList h (directory h (testSourcePath this))
        (testSourcePath this) testSourceRegex") auto
    have e1: "finished_loads es1 = []" using getFileList_no_finished(1)[of h "directory h (projectSourcePath this)" "projectSourcePath this" sourceFileRegex] s by simp
    have e2: "finished_loads es2 = []" using getFileList_no_finished(1)[of h "directory h (testSourcePath this)" "testSourcePath this" testSourceRegex] u by simp
    obtain a1 t1 where w1: "watchFilesForAutorun h sourceFiles (this, t @ [TestLoadStarted] @ es1 @ es2) = (a1, t1)"
      by (cases "watchFilesForAutorun h sourceFiles (this, t @ [TestLoadStarted] @ es1 @ es2)")
    obtain a2 t2 where w2: "watchFilesForAutorun h files (a1, t1) = (a2, t2)"
      by (cases "watchFilesForAutorun h files (a1, t1)")
    obtain a3 t3 where w3: "watchFilesForReload h files (a2, t2) = (a3, t3)"
      by (cases "watchFilesForReload h files (a2, t2)")
    have k: "testSuiteInfo a3 = testSuiteInfo this \<and> finished_loads t3 = finished_loads t"
      using watchFilesForAutorun_keeps[OF w1] watchFilesForAutorun_keeps[OF w2]
        watchFilesForReload_keeps[OF w3] e1 e2
      by (simp add: finished_loads_append)
    have "load h this t = (Inl (ReadError g), a3, t3)"
      using s u w1 w2 w3 lt[of a3] by (simp add: load_def)
    with k show ?thesis by blast
  qed
  with g lt show ?thesis by blast
qed

theorem loadTests_read_failure_witness:
  "'''' \<in> set [''''] \<and> readFile demo_host '''' = None \<and>
   loadTests demo_host demo_adapter [''''] = Inl (ReadError '''') \<and>
   fst (load demo_host (demo_adapter\<lparr>testSourcePath := ''C:/w/nope''\<rparr>) []) = Inl (ReadError '''') \<and>
   finished_loads (snd (snd (load demo_host (demo_adapter\<lparr>testSourcePath := ''C:/w/nope''\<rparr>) []))) = []"
proof -
  let ?a = "demo_adapter\<lparr>testSourcePath := ''C:/w/nope''\<rparr>"
  have r: "readFile demo_host '''' = None" by (simp add: demo_host_def)
  have m: "'''' \<in> set ['''']" by simp
  have fl: "snd (getFileList demo_host (directory demo_host (testSourcePath ?a)) (testSourcePath ?a)
                  testSourceRegex) = ['''']"
    by (simp add: demo_host_def)
  have fd: "List.find (\<lambda>f. readFile demo_host f = None) [''''] = Some ''''" using r by simp
  from loadTests_read_failure[OF m r, of demo_adapter "[]"] fd
  have 1: "loadTests demo_host demo_adapter [''''] = Inl (ReadError '''')" by auto
  from loadTests_read_failure[OF m r, of ?a "[]"] fd fl
  have 2: "\<exists>this' t'. load demo_host ?a [] = (Inl (ReadError ''''), this', t') \<and>
             testSuiteInfo this' = testSuiteInfo ?a \<and> finished_loads t' = finished_loads []"
    by auto
  from 1 2 r show ?thesis by auto
qed





lemma star_ms_caps:
  assumes f: "\<And>st st'. st' \<in> set (f st) \<Longrightarrow> length (snd (snd st')) = length (snd (snd st))"
  shows "st' \<in> set (star_ms f n st) \<Longrightarrow> length (snd (snd st')) = length (snd (snd st))"
proof (induction n arbitrary: st)
  case 0
  then show ?case by simp
next
  case (Suc n)
  from star_ms_SucD[OF Suc.prems] show ?case
  proof
    assume "st' = st"
    then show ?thesis by simp
  next
    assume "\<exists>mid\<in>set (f st). length (fst (snd mid)) < length (fst (snd st)) \<and>
              st' \<in> set (star_ms f n mid)"
    then obtain mid where "mid \<in> set (f st)" "st' \<in> set (star_ms f n mid)" by blast
    with f Suc.IH show ?thesis by metis
  qed
qed

lemma ms_caps: "st' \<in> set (ms r fl st) \<Longrightarrow> length (snd (snd st')) = length (snd (snd st))"
proof (induction r arbitrary: st st')
  case (Chr x)
  then show ?case by (auto split: prod.splits list.splits if_splits)
next
  case (Cls x)
  then show ?case by (auto split: prod.splits list.splits if_splits)
next
  case Bol
  then show ?case by (auto split: list.splits if_splits)
next
  case Eps
  then show ?case by simp
next
  case (Seq r1 r2)
  then obtain mid where "mid \<in> set (ms r1 fl st)" "st' \<in> set (ms r2 fl mid)" by auto
  then show ?case using Seq.IH by metis
next
  case (Alt r1 r2)
  then have "st' \<in> set (ms r1 fl st) \<or> st' \<in> set (ms r2 fl st)" by simp
  then show ?case using Alt.IH by blast
next
  case (Star r)
  then have "st' \<in> set (star_ms (ms r fl) (length (fst (snd st))) st)" by simp
  then show ?case using star_ms_caps[of "ms r fl"] Star.IH by blast
next
  case (Grp n r)
  then obtain b a c where "(b, a, c) \<in> set (ms r fl st)"
    "st' = (b, a, c[n := Some (rev (take (length b - length (fst st)) b))])"
    by auto
  then show ?case using Grp.IH[of "(b, a, c)" st] by simp
qed

text \<open>A match of \<open>exec\<close>: where it starts, what it consumed, and that \<open>match[0]\<close> is that text.\<close>

lemma regexp_exec_match:
  assumes "regexp_exec rx s li = Some m"
  shows "\<exists>w a' c' rest. li \<le> index m \<and> drop (index m) s = w @ a' \<and>
      ms (pattern rx) (rflags rx)
         (rev (take (index m) s), drop (index m) s, replicate (Suc (ngroups rx)) None)
        = (rev w @ rev (take (index m) s), a', c') # rest \<and>
      m_end m = index m + length w \<and> groups m = c'[0 := Some w] \<and>
      length c' = Suc (ngroups rx) \<and> grp m 0 = Some w"
proof -
  from regexp_exec_SomeD[OF assms] obtain w a' c' rest where
    1: "li \<le> index m" "drop (index m) s = w @ a'"
    and 2: "ms (pattern rx) (rflags rx)
         (rev (take (index m) s), drop (index m) s, replicate (Suc (ngroups rx)) None)
        = (rev w @ rev (take (index m) s), a', c') # rest"
    and 3: "m_end m = index m + length w" "groups m = c'[0 := Some w]" by blast
  from 2 have "(rev w @ rev (take (index m) s), a', c') \<in> set (ms (pattern rx) (rflags rx)
         (rev (take (index m) s), drop (index m) s, replicate (Suc (ngroups rx)) None))" by simp
  from ms_caps[OF this] have 4: "length c' = Suc (ngroups rx)" by simp
  with 3 have 5: "grp m 0 = Some w" by (simp add: grp_def)
  from 1 2 3 4 5 show ?thesis by blast
qed












lemma ms_Seq_hdD:
  assumes "ms (Seq r1 r2) fl st = x # xs"
  shows "\<exists>mid\<in>set (ms r1 fl st). \<exists>xs'. ms r2 fl mid = x # xs'"
proof -
  have "concat (map f ys) = x # xs \<Longrightarrow> \<exists>y\<in>set ys. \<exists>xs'. f y = x # xs'"
    for f :: "mstate \<Rightarrow> mstate list" and ys
  proof (induction ys)
    case Nil
    then show ?case by simp
  next
    case (Cons y ys)
    then show ?case by (cases "f y") auto
  qed
  from this[of "ms r2 fl" "ms r1 fl st"] assms show ?thesis by simp
qed

lemma star_step_hd:
  assumes f: "\<And>b a c. f (b, a, c) =
                (case a of [] \<Rightarrow> [] | x # xs \<Rightarrow> if p x then [(x # b, xs, c)] else [])"
  shows "length a \<le> n \<Longrightarrow>
         \<exists>more. star_ms f n (b, a, c) = (rev (takeWhile p a) @ b, dropWhile p a, c) # more"
proof (induction a arbitrary: b n)
  case Nil
  then show ?case by (cases n) (auto simp: f)
next
  case (Cons x xs)
  then obtain n' where n: "n = Suc n'" and l: "length xs \<le> n'" by (cases n) auto
  show ?case
  proof (cases "p x")
    case True
    from Cons.IH[OF l, of "x # b"] obtain more where
      "star_ms f n' (x # b, xs, c) = (rev (takeWhile p xs) @ x # b, dropWhile p xs, c) # more"
      by blast
    with True n show ?thesis by (simp add: f)
  next
    case False
    with n show ?thesis by (simp add: f)
  qed
qed

lemma ms_Star_Cls_hd:
  "\<exists>more. ms (Star (Cls k)) fl (b, a, c)
           = (rev (takeWhile (in_cls k) a) @ b, dropWhile (in_cls k) a, c) # more"
proof -
  have "ms (Cls k) fl (b, a, c) =
          (case a of [] \<Rightarrow> [] | x # xs \<Rightarrow> if in_cls k x then [(x # b, xs, c)] else [])"
    for b a c by simp
  from star_step_hd[of "ms (Cls k) fl" "in_cls k", OF this, of a "length a" b c]
  show ?thesis by simp
qed

lemma ms_Grp_D:
  assumes "st' \<in> set (ms (Grp n r) fl (b, a, c))"
  shows "\<exists>b' a' c'. (b', a', c') \<in> set (ms r fl (b, a, c)) \<and>
           st' = (b', a', c'[n := Some (rev (take (length b' - length b) b'))])"
  using assms by auto

lemma ms_Chr_D:
  assumes "st' \<in> set (ms (Chr x) fl (b, a, c))" and "\<not> ignoreCase fl"
  shows "\<exists>xs. a = x # xs \<and> st' = (x # b, xs, c)"
  using assms by (cases a) (auto split: if_splits)

lemma ms_Cls_D:
  assumes "st' \<in> set (ms (Cls k) fl (b, a, c))"
  shows "\<exists>x xs. a = x # xs \<and> in_cls k x \<and> st' = (x # b, xs, c)"
  using assms by (cases a) (auto split: if_splits)














lemma scan_first:
  "scan rx k b a = Some m \<Longrightarrow> a = w1 @ w2 \<Longrightarrow> length b + length w1 < index m \<Longrightarrow>
   ms (pattern rx) (rflags rx) (rev w1 @ b, w2, replicate (Suc (ngroups rx)) None) = []"
proof (induction k arbitrary: b a w1)
  case 0
  then show ?case by simp
next
  case (Suc k)
  show ?case
  proof (cases "ms (pattern rx) (rflags rx) (b, a, replicate (Suc (ngroups rx)) None)")
    case Nil
    show ?thesis
    proof (cases w1)
      case w: Nil
      with Nil Suc.prems(2) show ?thesis by simp
    next
      case (Cons x w1')
      with Suc.prems(2) have a: "a = x # (w1' @ w2)" by simp
      with Nil Suc.prems(1) have s: "scan rx k (x # b) (w1' @ w2) = Some m" by simp
      from Suc.prems(3) Cons have "length (x # b) + length w1' < index m" by simp
      from Suc.IH[OF s refl this] Cons show ?thesis by simp
    qed
  next
    case (Cons st rest)
    obtain b' a' c' where "st = (b', a', c')" by (cases st)
    with Cons Suc.prems(1) have "index m = length b" by auto
    with Suc.prems(3) show ?thesis by simp
  qed
qed

lemma scan_NoneD:
  "scan rx k b a = None \<Longrightarrow> length a < k \<Longrightarrow> a = w1 @ w2 \<Longrightarrow>
   ms (pattern rx) (rflags rx) (rev w1 @ b, w2, replicate (Suc (ngroups rx)) None) = []"
proof (induction k arbitrary: b a w1)
  case 0
  then show ?case by simp
next
  case (Suc k)
  from Suc.prems(1)
  have here: "ms (pattern rx) (rflags rx) (b, a, replicate (Suc (ngroups rx)) None) = []"
    by (cases "ms (pattern rx) (rflags rx) (b, a, replicate (Suc (ngroups rx)) None)") auto
  show ?case
  proof (cases w1)
    case Nil
    with here Suc.prems(3) show ?thesis by simp
  next
    case (Cons x w1')
    with Suc.prems(3) have a: "a = x # (w1' @ w2)" by simp
    with here Suc.prems(1) have s: "scan rx k (x # b) (w1' @ w2) = None" by simp
    from a Suc.prems(2) have "length (w1' @ w2) < k" by simp
    from Suc.IH[OF s this refl] Cons show ?thesis by simp
  qed
qed

lemma regexp_exec_first:
  assumes "regexp_exec rx s 0 = Some m" and "k < index m"
  shows "\<not> matches_at rx s k"
proof -
  from assms(1) have sc: "scan rx (Suc (length s)) [] s = Some m"
    by (simp add: regexp_exec_def del: scan.simps)
  from regexp_exec_match[OF assms(1)] obtain w a' where "drop (index m) s = w @ a'"
    "m_end m = index m + length w" by blast
  have "s = take k s @ drop k s" by simp
  from scan_first[OF sc this] assms(2)
  have "ms (pattern rx) (rflags rx) (rev (take k s) @ [], drop k s, replicate (Suc (ngroups rx)) None) = []"
    by (simp add: min_def)
  then show ?thesis by (simp add: matches_at_def)
qed

lemma regexp_exec_NoneD:
  assumes "regexp_exec rx s 0 = None"
  shows "\<not> matches_at rx s k"
proof (cases "k \<le> length s")
  case True
  from assms have sc: "scan rx (Suc (length s)) [] s = None"
    by (simp add: regexp_exec_def del: scan.simps)
  have "s = take k s @ drop k s" by simp
  from scan_NoneD[OF sc _ this]
  have "ms (pattern rx) (rflags rx) (rev (take k s) @ [], drop k s, replicate (Suc (ngroups rx)) None) = []"
    by simp
  then show ?thesis by (simp add: matches_at_def)
next
  case False
  then have "take k s = s" "drop k s = []" by simp_all
  moreover have "s = take (length s) s @ drop (length s) s" by simp
  moreover from assms have sc: "scan rx (Suc (length s)) [] s = None"
    by (simp add: regexp_exec_def del: scan.simps)
  ultimately have "ms (pattern rx) (rflags rx) (rev s @ [], [], replicate (Suc (ngroups rx)) None) = []"
    using scan_NoneD[OF sc, of s "[]"] by simp
  with False show ?thesis by (simp add: matches_at_def)
qed

lemma verdict_first:
  assumes "ms verdict no_flags (b, a, c) = (b', a', c') # others"
  shows "(a = ''PASS'' @ a' \<and> c' = c[2 := Some ''PASS'']) \<or>
         (\<exists>msg. a = ''FAIL: '' @ msg @ a' \<and> msg = takeWhile (\<lambda>ch. \<not> is_lt ch) (msg @ a') \<and>
            c' = c[4 := Some msg, 3 := Some (''FAIL: '' @ msg), 2 := Some (''FAIL: '' @ msg)])"
proof (cases "prefix ''PASS'' a")
  case True
  then obtain r where a: "a = ''PASS'' @ r" by (auto simp: prefix_def)
  with assms have "a' = r \<and> c' = c[2 := Some ''PASS'']"
    by (simp add: verdict_def ms_Lit no_flags_def)
  with a show ?thesis by simp
next
  case False
  show ?thesis
  proof (cases "prefix ''FAIL: '' a")
    case True
    then obtain r where a: "a = ''FAIL: '' @ r" by (auto simp: prefix_def)
    let ?b = "rev ''FAIL: '' @ b"
    obtain more' where st: "ms (Star (Cls Dot)) no_flags (?b, r, c)
        = (rev (takeWhile (in_cls Dot) r) @ ?b, dropWhile (in_cls Dot) r, c) # more'"
      using ms_Star_Cls_hd[of Dot no_flags ?b r c] by blast
    have ms_fail: "ms (Lit ''FAIL: '') no_flags (b, a, c) = [(?b, r, c)]"
      using a by (simp add: ms_Lit no_flags_def)
    have ms_pass: "ms (Lit ''PASS'') no_flags (b, a, c) = []"
      using False by (simp add: ms_Lit no_flags_def)
    let ?msg = "takeWhile (in_cls Dot) r"
    have "ms verdict no_flags (b, a, c)
          = map (\<lambda>(b', a', c'). (b', a', c'[2 := Some (rev (take (length b' - length b) b'))]))
              (map (\<lambda>(b', a', c'). (b', a', c'[3 := Some (rev (take (length b' - length b) b'))]))
                 (map (\<lambda>(b', a', c'). (b', a', c'[4 := Some (rev (take (length b' - length ?b) b'))]))
                    (ms (Star (Cls Dot)) no_flags (?b, r, c))))"
      unfolding verdict_def using ms_fail ms_pass by simp
    with st assms have "a' = dropWhile (in_cls Dot) r \<and>
        c' = c[4 := Some ?msg, 3 := Some (''FAIL: '' @ ?msg), 2 := Some (''FAIL: '' @ ?msg)]"
      by simp
    moreover have "in_cls Dot = (\<lambda>ch. \<not> is_lt ch)" by auto
    ultimately have "a = ''FAIL: '' @ ?msg @ a' \<and> ?msg = takeWhile (\<lambda>ch. \<not> is_lt ch) (?msg @ a') \<and>
        c' = c[4 := Some ?msg, 3 := Some (''FAIL: '' @ ?msg), 2 := Some (''FAIL: '' @ ?msg)]"
      using a by simp
    then show ?thesis by blast
  next
    case no: False
    with False assms show ?thesis by (simp add: verdict_def ms_Lit no_flags_def)
  qed
qed

lemma testResult_pattern:
  "pattern (testResultRegex lbl) =
     Seq (Chr CHR '':'') (Seq (Grp 1 (Plus (Cls Digit))) (Seq (Chr CHR '':'')
       (Seq (Star (Cls Dot)) (Seq (Lit lbl) (Seq (Chr CHR '':'') (Seq verdict Eps))))))"
  by (simp add: testResultRegex_def seqs_def)

text \<open>The first way in which the result pattern matches from a position.\<close>

lemma testResult_first:
  assumes "ms (pattern (testResultRegex lbl)) no_flags (b, a, c) = (b', a', c') # others"
  shows "\<exists>ds mid v. a = '':'' @ ds @ '':'' @ mid @ lbl @ '':'' @ v @ a' \<and>
           ds \<noteq> [] \<and> list_all is_digit ds \<and> list_all (\<lambda>ch. \<not> is_lt ch) mid \<and>
           ((v = ''PASS'' \<and> c' = c[1 := Some ds, 2 := Some ''PASS'']) \<or>
            (\<exists>msg. v = ''FAIL: '' @ msg \<and> msg = takeWhile (\<lambda>ch. \<not> is_lt ch) (msg @ a') \<and>
               c' = c[1 := Some ds, 4 := Some msg, 3 := Some v, 2 := Some v]))"
proof -
  let ?fl = no_flags
  have nf: "\<not> ignoreCase ?fl" by (simp add: no_flags_def)
  note p = assms[unfolded testResult_pattern]
  from ms_Seq_hdD[OF p] obtain s1 x1 where s1: "s1 \<in> set (ms (Chr CHR '':'') ?fl (b, a, c))"
    and p1: "ms (Seq (Grp 1 (Plus (Cls Digit))) (Seq (Chr CHR '':'')
       (Seq (Star (Cls Dot)) (Seq (Lit lbl) (Seq (Chr CHR '':'') (Seq verdict Eps)))))) ?fl s1
       = (b', a', c') # x1" by blast
  from ms_Chr_D[OF s1 nf] obtain a1 where a: "a = CHR '':'' # a1"
    and s1_eq: "s1 = (CHR '':'' # b, a1, c)" by blast
  from ms_Seq_hdD[OF p1] obtain s2 x2 where s2: "s2 \<in> set (ms (Grp 1 (Plus (Cls Digit))) ?fl s1)"
    and p2: "ms (Seq (Chr CHR '':'')
       (Seq (Star (Cls Dot)) (Seq (Lit lbl) (Seq (Chr CHR '':'') (Seq verdict Eps))))) ?fl s2
       = (b', a', c') # x2" by blast
  from ms_Grp_D[OF s2[unfolded s1_eq]] obtain bd ad cd where
    d: "(bd, ad, cd) \<in> set (ms (Plus (Cls Digit)) ?fl (CHR '':'' # b, a1, c))"
    and s2_eq: "s2 = (bd, ad, cd[1 := Some (rev (take (length bd - length (CHR '':'' # b)) bd))])"
    by blast
  from ms_SeqD[OF d[unfolded Plus_def]] obtain y where
    y: "y \<in> set (ms (Cls Digit) ?fl (CHR '':'' # b, a1, c))"
    and d2: "(bd, ad, cd) \<in> set (ms (Star (Cls Digit)) ?fl y)" by blast
  from ms_Cls_D[OF y] obtain d0 a1' where a1: "a1 = d0 # a1'" and d0: "is_digit d0"
    and y_eq: "y = (d0 # CHR '':'' # b, a1', c)" by auto
  from ms_Star_Cls[OF d2[unfolded y_eq]] obtain w where w: "list_all (in_cls Digit) w"
    and pw: "prefix w a1'" and bd: "bd = rev w @ d0 # CHR '':'' # b"
    and ad: "ad = drop (length w) a1'" and cd: "cd = c" by auto
  define ds where "ds = d0 # w"
  have ds: "ds \<noteq> []" "list_all is_digit ds" using w d0 by (simp_all add: ds_def list_all_iff)
  have a1_eq: "a1 = ds @ ad" using a1 pw ad by (auto simp: ds_def prefix_def)
  have s2_eq': "s2 = (rev ds @ CHR '':'' # b, ad, c[1 := Some ds])"
    using s2_eq bd cd by (simp add: ds_def)
  from ms_Seq_hdD[OF p2] obtain s3 x3 where s3: "s3 \<in> set (ms (Chr CHR '':'') ?fl s2)"
    and p3: "ms (Seq (Star (Cls Dot)) (Seq (Lit lbl) (Seq (Chr CHR '':'') (Seq verdict Eps)))) ?fl s3
       = (b', a', c') # x3" by blast
  from ms_Chr_D[OF s3[unfolded s2_eq'] nf] obtain a3 where ad_eq: "ad = CHR '':'' # a3"
    and s3_eq: "s3 = (CHR '':'' # rev ds @ CHR '':'' # b, a3, c[1 := Some ds])" by blast
  from ms_Seq_hdD[OF p3] obtain s4 x4 where s4: "s4 \<in> set (ms (Star (Cls Dot)) ?fl s3)"
    and p4: "ms (Seq (Lit lbl) (Seq (Chr CHR '':'') (Seq verdict Eps))) ?fl s4
       = (b', a', c') # x4" by blast
  from ms_Star_Cls[OF s4[unfolded s3_eq]] obtain mid where mid: "list_all (in_cls Dot) mid"
    and pm: "prefix mid a3"
    and s4_raw: "s4 = (rev mid @ CHR '':'' # rev ds @ CHR '':'' # b, drop (length mid) a3,
                      c[1 := Some ds])" by blast
  from pm obtain a4 where a3_eq: "a3 = mid @ a4" by (auto simp: prefix_def)
  with s4_raw have s4_eq: "s4 = (rev mid @ CHR '':'' # rev ds @ CHR '':'' # b, a4, c[1 := Some ds])"
    by simp
  from ms_Seq_hdD[OF p4] obtain s5 x5 where s5: "s5 \<in> set (ms (Lit lbl) ?fl s4)"
    and p5: "ms (Seq (Chr CHR '':'') (Seq verdict Eps)) ?fl s5 = (b', a', c') # x5" by blast
  from ms_Lit_D[OF nf s5[unfolded s4_eq]] have pl: "prefix lbl a4"
    and s5_raw: "s5 = (rev lbl @ rev mid @ CHR '':'' # rev ds @ CHR '':'' # b,
                      drop (length lbl) a4, c[1 := Some ds])" by blast+
  from pl obtain a5 where a4_eq: "a4 = lbl @ a5" by (auto simp: prefix_def)
  with s5_raw have s5_eq: "s5 = (rev lbl @ rev mid @ CHR '':'' # rev ds @ CHR '':'' # b, a5,
                      c[1 := Some ds])" by simp
  from ms_Seq_hdD[OF p5] obtain s6 x6 where s6: "s6 \<in> set (ms (Chr CHR '':'') ?fl s5)"
    and p6: "ms (Seq verdict Eps) ?fl s6 = (b', a', c') # x6" by blast
  from ms_Chr_D[OF s6[unfolded s5_eq] nf] obtain a6 where
    a5_eq: "a5 = CHR '':'' # a6"
    and s6_eq: "s6 = (CHR '':'' # rev lbl @ rev mid @ CHR '':'' # rev ds @ CHR '':'' # b, a6,
                      c[1 := Some ds])" by blast
  from p6 have "ms verdict ?fl s6 = (b', a', c') # x6" by (simp only: ms_Seq_Eps)
  from verdict_first[OF this[unfolded s6_eq]]
  have v: "(a6 = ''PASS'' @ a' \<and> c' = c[1 := Some ds, 2 := Some ''PASS'']) \<or>
         (\<exists>msg. a6 = ''FAIL: '' @ msg @ a' \<and> msg = takeWhile (\<lambda>ch. \<not> is_lt ch) (msg @ a') \<and>
            c' = c[1 := Some ds, 4 := Some msg, 3 := Some (''FAIL: '' @ msg),
                   2 := Some (''FAIL: '' @ msg)])" .
  have a_eq: "a = '':'' @ ds @ '':'' @ mid @ lbl @ '':'' @ a6"
    using a a1_eq ad_eq a3_eq a4_eq a5_eq by simp
  have m: "list_all (\<lambda>ch. \<not> is_lt ch) mid" using mid by (simp add: list_all_iff)
  from v show ?thesis
  proof
    assume "a6 = ''PASS'' @ a' \<and> c' = c[1 := Some ds, 2 := Some ''PASS'']"
    with a_eq ds m show ?thesis
      by (intro exI[of _ ds] exI[of _ mid] exI[of _ "''PASS''"]) simp
  next
    assume "\<exists>msg. a6 = ''FAIL: '' @ msg @ a' \<and> msg = takeWhile (\<lambda>ch. \<not> is_lt ch) (msg @ a') \<and>
            c' = c[1 := Some ds, 4 := Some msg, 3 := Some (''FAIL: '' @ msg),
                   2 := Some (''FAIL: '' @ msg)]"
    then obtain msg where "a6 = ''FAIL: '' @ msg @ a'"
      "msg = takeWhile (\<lambda>ch. \<not> is_lt ch) (msg @ a')"
      "c' = c[1 := Some ds, 4 := Some msg, 3 := Some (''FAIL: '' @ msg),
                   2 := Some (''FAIL: '' @ msg)]" by blast
    with a_eq ds m show ?thesis
      by (intro exI[of _ ds] exI[of _ mid] exI[of _ "''FAIL: '' @ msg"]) auto
  qed
qed


text \<open>
  For a test node whose label is a word and every captured output, \<open>checkTestResult\<close>
  emits the running event of the test and then classifies the first place of the output at
  which the pattern \<open>:<line>:...<label>:(PASS|FAIL: <message>)\<close> matches; a match lies
  within one line. If there is none, nothing more is emitted. On \<open>PASS\<close> it emits the
  passed event. On \<open>FAIL\<close> it emits the failed event with one decoration, whose line is
  the Number parsed from the output minus 1 and whose message is the text after \<open>FAIL: \<close>
  up to the end of the line.
\<close>

lemma checkTestResult_classifies:
  assumes "plain_label node"
  shows "(checkTestResult h node out t = (Inr (), t @ [TestEvent (id_of node) Running []]) \<and>
          (\<forall>k. \<not> matches_at (testResultRegex (to_string (label node))) out k)) \<or>
         (\<exists>pre ds mid v post.
            out = pre @ '':'' @ ds @ '':'' @ mid @ to_string (label node) @ '':'' @ v @ post \<and>
            (\<forall>k<length pre. \<not> matches_at (testResultRegex (to_string (label node))) out k) \<and>
            ds \<noteq> [] \<and> list_all is_digit ds \<and> list_all (\<lambda>ch. \<not> is_lt ch) mid \<and>
            ((v = ''PASS'' \<and>
              checkTestResult h node out t
                = (Inr (), t @ [TestEvent (id_of node) Running [],
                                TestEvent (id_of node) Passed []])) \<or>
             (\<exists>msg. v = ''FAIL: '' @ msg \<and> msg = takeWhile (\<lambda>ch. \<not> is_lt ch) (msg @ post) \<and>
                checkTestResult h node out t
                  = (Inr (), t @ [TestEvent (id_of node) Running [],
                                  TestEvent (id_of node) Failed
                                    [Decoration (minus_one (parseInt ds)) (Some msg)]]))))"
proof (cases "regexp_exec (testResultRegex (to_string (label node))) out 0")
  case None
  then have "checkTestResult h node out t = (Inr (), t @ [TestEvent (id_of node) Running []])"
    by (simp add: checkTestResult_word[OF assms])
  with regexp_exec_NoneD[OF None] show ?thesis by blast
next
  case (Some m)
  let ?rx = "testResultRegex (to_string (label node))"
  let ?lbl = "to_string (label node)"
  have ng: "replicate (Suc (ngroups ?rx)) None = [None, None, None, None, None]"
    and fl: "rflags ?rx = no_flags"
    by (simp_all add: testResultRegex_def numeral_eq_Suc)
  from regexp_exec_match[OF Some] obtain w a' c' rest where
    d: "drop (index m) out = w @ a'"
    and ms: "ms (pattern ?rx) (rflags ?rx)
               (rev (take (index m) out), drop (index m) out, replicate (Suc (ngroups ?rx)) None)
             = (rev w @ rev (take (index m) out), a', c') # rest"
    and g: "groups m = c'[0 := Some w]" by blast
  from testResult_first[OF ms[unfolded fl ng]] obtain ds mid v where
    a: "drop (index m) out = '':'' @ ds @ '':'' @ mid @ ?lbl @ '':'' @ v @ a'"
    and ds: "ds \<noteq> []" "list_all is_digit ds" and mid: "list_all (\<lambda>ch. \<not> is_lt ch) mid"
    and v: "(v = ''PASS'' \<and> c' = [None, None, None, None, None][1 := Some ds, 2 := Some ''PASS'']) \<or>
            (\<exists>msg. v = ''FAIL: '' @ msg \<and> msg = takeWhile (\<lambda>ch. \<not> is_lt ch) (msg @ a') \<and>
               c' = [None, None, None, None, None][1 := Some ds, 4 := Some msg, 3 := Some v, 2 := Some v])"
    by blast
  have i: "index m \<le> length out" using a by (cases "index m \<le> length out") auto
  define pre where "pre = take (index m) out"
  have lp: "length pre = index m" using i by (simp add: pre_def)
  have out: "out = pre @ '':'' @ ds @ '':'' @ mid @ ?lbl @ '':'' @ v @ a'"
    using a append_take_drop_id[of "index m" out] by (simp add: pre_def)
  have first: "\<forall>k<length pre. \<not> matches_at ?rx out k"
    using regexp_exec_first[OF Some] lp by simp
  from v show ?thesis
  proof
    assume p: "v = ''PASS'' \<and> c' = [None, None, None, None, None][1 := Some ds, 2 := Some ''PASS'']"
    with g have "grp m 2 = Some ''PASS''" by (simp add: grp_def)
    with Some have "checkTestResult h node out t
                = (Inr (), t @ [TestEvent (id_of node) Running [], TestEvent (id_of node) Passed []])"
      by (simp add: checkTestResult_word[OF assms])
    with p out first ds mid show ?thesis by blast
  next
    assume "\<exists>msg. v = ''FAIL: '' @ msg \<and> msg = takeWhile (\<lambda>ch. \<not> is_lt ch) (msg @ a') \<and>
               c' = [None, None, None, None, None][1 := Some ds, 4 := Some msg, 3 := Some v, 2 := Some v]"
    then obtain msg where f: "v = ''FAIL: '' @ msg" "msg = takeWhile (\<lambda>ch. \<not> is_lt ch) (msg @ a')"
      and c': "c' = [None, None, None, None, None][1 := Some ds, 4 := Some msg, 3 := Some v, 2 := Some v]"
      by blast
    from g c' f(1) have "grp m 2 = Some (''FAIL: '' @ msg)" "grp m 1 = Some ds" "grp m 4 = Some msg"
      by (simp_all add: grp_def)
    with Some have "checkTestResult h node out t
                  = (Inr (), t @ [TestEvent (id_of node) Running [],
                       TestEvent (id_of node) Failed
                         [Decoration (minus_one (parseInt ds)) (Some msg)]])"
      by (simp add: checkTestResult_word[OF assms] to_string_def)
    with f out first ds mid show ?thesis by blast
  qed
qed

text \<open>
  The two results of the specification: \<open>:12:test_addTwoNumbers:PASS\<close> is reported passed
  and \<open>:20:test_sub:FAIL: Expected 4 Was 5\<close> failed at line 19 with that message. A line
  number of more than 15 digits is not exact: \<open>parseInt\<close> gives the nearest double.
\<close>

lemma checkTestResult_examples:
  "checkTestResult demo_host
     (TestInfo ''a_test.c::test_addTwoNumbers'' (Some ''test_addTwoNumbers'') (Some ''a_test.c'') 11)
     ('':12:test_addTwoNumbers:PASS'' @ [LF]) []
     = (Inr (), [TestEvent ''a_test.c::test_addTwoNumbers'' Running [],
                 TestEvent ''a_test.c::test_addTwoNumbers'' Passed []]) \<and>
   checkTestResult demo_host
     (TestInfo ''a_test.c::test_sub'' (Some ''test_sub'') (Some ''a_test.c'') 19)
     '':20:test_sub:FAIL: Expected 4 Was 5'' []
     = (Inr (), [TestEvent ''a_test.c::test_sub'' Running [],
                 TestEvent ''a_test.c::test_sub'' Failed
                   [Decoration (Num 19) (Some ''Expected 4 Was 5'')]]) \<and>
   checkTestResult demo_host
     (TestInfo ''a_test.c::test_sub'' (Some ''test_sub'') (Some ''a_test.c'') 19)
     '':9007199254740993:test_sub:FAIL: far'' []
     = (Inr (), [TestEvent ''a_test.c::test_sub'' Running [],
                 TestEvent ''a_test.c::test_sub'' Failed
                   [Decoration (Num 9007199254740991) (Some ''far'')]])"
  by code_simp

text \<open>
  C2 (as the code has it, against the claim). The claim: for every test node,
  \<open>checkTestResult\<close> classifies the first result line of the test, passed on \<open>PASS\<close> and
  failed on \<open>FAIL\<close>. The code puts the label of the node into the source of the pattern
  without escaping it. \<open>loadTests\<close> gives the declaration \<open>void test_d(void) { f(g(1)); }\<close>
  the label \<open>test_d(void) { f(g\<close>, in which a parenthesis stays open: the RegExp
  constructor throws a SyntaxError, and \<open>checkTestResult\<close> ends with that error after the
  running event, whatever the output holds. The declaration \<open>void test_p(void) { f(); }\<close>
  gets the label \<open>test_p(void) { f\<close>, in which \<open>(void)\<close> is a group: the line
  \<open>a_test.c:3:test_p:PASS\<close> of the output does not match, and the test that passed is
  left running. (For a label that is a word the claim holds, lemmas
  \<open>checkTestResult_classifies\<close> and \<open>checkTestResult_examples\<close>.)
\<close>

theorem checkTestResult_label_in_pattern:
  "testsFrom demo_adapter ''a_test.c'' ''void test_d(void) { f(g(1)); }'' 0
     = [TestInfo ''a_test.c::test_d(void) { f(g'' (Some ''test_d(void) { f(g'')
          (Some ''a_test.c'') 0] \<and>
   checkTestResult h
     (TestInfo ''a_test.c::test_d(void) { f(g'' (Some ''test_d(void) { f(g'') (Some ''a_test.c'') 0)
     suiteResult t
     = (Inl SyntaxError, t @ [TestEvent ''a_test.c::test_d(void) { f(g'' Running []]) \<and>
   testsFrom demo_adapter ''a_test.c'' ''void test_p(void) { f(); }'' 0
     = [TestInfo ''a_test.c::test_p(void) { f'' (Some ''test_p(void) { f'')
          (Some ''a_test.c'') 0] \<and>
   checkTestResult h
     (TestInfo ''a_test.c::test_p(void) { f'' (Some ''test_p(void) { f'') (Some ''a_test.c'') 0)
     (''a_test.c:3:test_p:PASS'' @ [LF]) t
     = (Inr (), t @ [TestEvent ''a_test.c::test_p(void) { f'' Running []])"
proof -
  have 1: "testsFrom demo_adapter ''a_test.c'' ''void test_d(void) { f(g(1)); }'' 0
     = [TestInfo ''a_test.c::test_d(void) { f(g'' (Some ''test_d(void) { f(g'')
          (Some ''a_test.c'') 0]"
    by code_simp
  have "parse_pattern ('':([0-9]+):.*'' @ ''test_d(void) { f(g'' @ testResultString) = Invalid"
    by code_simp
  then have 2: "checkTestResult h
     (TestInfo ''a_test.c::test_d(void) { f(g'' (Some ''test_d(void) { f(g'') (Some ''a_test.c'') 0)
     suiteResult t
     = (Inl SyntaxError, t @ [TestEvent ''a_test.c::test_d(void) { f(g'' Running []])"
    by (simp add: checkTestResult_def new_RegExp_def to_string_def)
  have 3: "testsFrom demo_adapter ''a_test.c'' ''void test_p(void) { f(); }'' 0
     = [TestInfo ''a_test.c::test_p(void) { f'' (Some ''test_p(void) { f'')
          (Some ''a_test.c'') 0]"
    by code_simp
  have "case parse_pattern ('':([0-9]+):.*'' @ ''test_p(void) { f'' @ testResultString) of
          Pattern rx \<Rightarrow> regexp_exec rx (''a_test.c:3:test_p:PASS'' @ [LF]) 0 = None
        | Invalid \<Rightarrow> False | Beyond \<Rightarrow> False"
    by code_simp
  then have 4: "checkTestResult h
     (TestInfo ''a_test.c::test_p(void) { f'' (Some ''test_p(void) { f'') (Some ''a_test.c'') 0)
     (''a_test.c:3:test_p:PASS'' @ [LF]) t
     = (Inr (), t @ [TestEvent ''a_test.c::test_p(void) { f'' Running []])"
    by (cases "parse_pattern ('':([0-9]+):.*'' @ ''test_p(void) { f'' @ testResultString)")
       (simp_all add: checkTestResult_def new_RegExp_def to_string_def)
  from 1 2 3 4 show ?thesis by blast
qed


text \<open>
  C6 (as the code has it, against the claim). The claim: a request for \<open>root\<close> runs every
  top-level suite of the tree once, in the order of the root's children, and any other
  request runs the requested ids in order. \<open>checkTestResult\<close> throws a SyntaxError for a
  test whose label leaves a parenthesis open in the pattern (the defect of C2), nothing in
  \<open>runSuites\<close> or \<open>run\<close> catches it, and the run ends there. In the workspace below
  \<open>load\<close> builds a tree of two suites; the test of the first is declared on one line as
  \<open>void test_d(void) { f(g(1)); }\<close>. \<open>run\<close> for \<open>root\<close>, and \<open>run\<close> for the ids of the two
  suites, build and execute the first suite and end with the error: the second suite is
  never run, and the finished event of the run is not fired. Alone, the second suite runs.
\<close>

theorem run_stops_at_label:
  "fst (load oneline_host demo_adapter []) = Inr () \<and>
   testSuiteInfo oneline_adapter =
     TestSuiteInfo ''root'' (Some ''Unity'') None
       [TestSuiteInfo ''C:/w/test/a_test.c'' (Some ''test/a_test.c'') (Some ''C:/w/test/a_test.c'')
          [TestInfo ''C:/w/test/a_test.c::test_d(void) { f(g'' (Some ''test_d(void) { f(g'')
             (Some ''C:/w/test/a_test.c'') 0],
        TestSuiteInfo ''C:/w/test/b_test.c'' (Some ''test/b_test.c'') (Some ''C:/w/test/b_test.c'')
          [TestInfo ''C:/w/test/b_test.c::test_e'' (Some ''test_e'')
             (Some ''C:/w/test/b_test.c'') 0]] \<and>
   run oneline_host oneline_adapter [''root''] [] =
     (Inl SyntaxError,
      [TestRunStarted [''root''],
       TestSuiteEvent ''C:/w/test/a_test.c'' Running,
       Exec ''make -s build/a_test.exe'',
       Exec ([CHR 0x22] @ ''C:/w/build/a_test.exe'' @ [CHR 0x22]),
       TestSuiteEvent ''C:/w/test/a_test.c'' Completed,
       TestEvent ''C:/w/test/a_test.c::test_d(void) { f(g'' Running []]) \<and>
   run oneline_host oneline_adapter [''C:/w/test/a_test.c'', ''C:/w/test/b_test.c''] [] =
     (Inl SyntaxError,
      [TestRunStarted [''C:/w/test/a_test.c'', ''C:/w/test/b_test.c''],
       TestSuiteEvent ''C:/w/test/a_test.c'' Running,
       Exec ''make -s build/a_test.exe'',
       Exec ([CHR 0x22] @ ''C:/w/build/a_test.exe'' @ [CHR 0x22]),
       TestSuiteEvent ''C:/w/test/a_test.c'' Completed,
       TestEvent ''C:/w/test/a_test.c::test_d(void) { f(g'' Running []]) \<and>
   run oneline_host oneline_adapter [''C:/w/test/b_test.c''] [] =
     (Inr (),
      [TestRunStarted [''C:/w/test/b_test.c''],
       TestSuiteEvent ''C:/w/test/b_test.c'' Running,
       Exec ''make -s build/b_test.exe'',
       Exec ([CHR 0x22] @ ''C:/w/build/b_test.exe'' @ [CHR 0x22]),
       TestSuiteEvent ''C:/w/test/b_test.c'' Completed,
       TestEvent ''C:/w/test/b_test.c::test_e'' Running [],
       TestEvent ''C:/w/test/b_test.c::test_e'' Passed [],
       TestRunFinished])"
  by code_simp


end
